theory Spec2Isabelle
  imports Main "HOL-Library.Sublist"
begin

section \<open>Strings of the scripts\<close>

text \<open>
  A JavaScript string is the sequence of its UTF-16 code units. A code unit is modelled
  by its number, so every function below is defined on (and every theorem quantifies
  over) all code-unit sequences. Literals are written \<open>js ''...''\<close>.
\<close>

type_synonym jstr = "nat list"

definition js :: "string \<Rightarrow> jstr" where
  "js s = map of_char s"

definition LF :: nat where "LF = 10"
definition CR :: nat where "CR = 13"

text \<open>
  The characters removed by \<open>String.prototype.trim\<close> and matched by \<open>\s\<close>:
  WhiteSpace and LineTerminator of ECMAScript (tab, LF, VT, FF, CR, space, NBSP,
  U+1680, U+2000..U+200A, U+2028, U+2029, U+202F, U+205F, U+3000, U+FEFF).
\<close>

definition is_ws :: "nat \<Rightarrow> bool" where
  "is_ws c \<longleftrightarrow>
     (9 \<le> c \<and> c \<le> 13) \<or> c = 32 \<or> c = 160 \<or> c = 5760 \<or>
     (8192 \<le> c \<and> c \<le> 8202) \<or> c = 8232 \<or> c = 8233 \<or> c = 8239 \<or>
     c = 8287 \<or> c = 12288 \<or> c = 65279"

definition trim :: "jstr \<Rightarrow> jstr" where
  "trim s = rev (dropWhile is_ws (rev (dropWhile is_ws s)))"

text \<open>\<open>s.slice(a, b)\<close> for \<open>0 \<le> a \<le> b\<close>: both ends are clamped to the length.\<close>

definition slice :: "jstr \<Rightarrow> nat \<Rightarrow> nat \<Rightarrow> jstr" where
  "slice s a b = take (b - a) (drop a s)"

section \<open>Rich text segments (\<open>notionRichText\<close>)\<close>

datatype rich_text = Text (content: jstr)

definition max_chunk :: nat where
  "max_chunk = 1800"

text \<open>
  The loop \<open>for (let i = 0; i < s.length; i += max) chunks.push(s.slice(i, i + max))\<close>,
  started at any index \<open>i\<close> with the chunks pushed so far.
\<close>

function chunk_loop :: "jstr \<Rightarrow> nat \<Rightarrow> jstr list \<Rightarrow> jstr list" where
  "chunk_loop s i chunks =
     (if i < length s
      then chunk_loop s (i + max_chunk) (chunks @ [slice s i (i + max_chunk)])
      else chunks)"
  by pat_completeness auto
termination
  by (relation "measure (\<lambda>(s, i, chunks). length s - i)") (auto simp: max_chunk_def)

declare chunk_loop.simps [simp del]

text \<open>
  \<open>content ?? ''\<close> reads a missing argument as the empty string; a text that is empty
  after trimming gives no segment at all.
\<close>

definition notionRichText :: "jstr option \<Rightarrow> rich_text list" where
  "notionRichText content_opt =
     (let s = (case content_opt of None \<Rightarrow> [] | Some c \<Rightarrow> c)
      in if trim s = [] then [] else map Text (chunk_loop s 0 []))"

section \<open>Lines, patterns and the noise filter\<close>

datatype error =
    TypeError
  | MissingToken
  | MissingPageId
  | MissingMarkdown
  | NoEntriesFound jstr
  | NotionApiError nat
  | NoChildDatabase

text \<open>
  \<open>text.split(/\r?\n/)\<close>: the text is cut at every LF, and a CR directly before the LF
  belongs to the separator. The empty text gives one empty line.
\<close>

fun split_lines :: "jstr \<Rightarrow> jstr list" where
  "split_lines [] = [[]]"
| "split_lines [c] = (if c = LF then [[], []] else [[c]])"
| "split_lines (c # d # cs) =
     (if c = LF then [] # split_lines (d # cs)
      else if c = CR \<and> d = LF then [] # split_lines cs
      else (case split_lines (d # cs) of
              [] \<Rightarrow> [[c]]
            | l # ls \<Rightarrow> (c # l) # ls))"

text \<open>\<open>lines.join('\n')\<close>\<close>

fun join_lines :: "jstr list \<Rightarrow> jstr" where
  "join_lines [] = []"
| "join_lines [l] = l"
| "join_lines (l # m # ls) = l @ LF # join_lines (m # ls)"

text \<open>
  Matching with the \<open>i\<close> flag compares canonicalised code units. Every character of the
  two patterns is ASCII, and a code unit from 128 on never canonicalises to an ASCII one,
  so a code unit matches a pattern character exactly when their ASCII upper cases agree.
\<close>

definition ascii_upper :: "nat \<Rightarrow> nat" where
  "ascii_upper c = (if 97 \<le> c \<and> c \<le> 122 then c - 32 else c)"

definition ci_prefix :: "jstr \<Rightarrow> jstr \<Rightarrow> bool" where
  "ci_prefix p s \<longleftrightarrow> map ascii_upper (take (length p) s) = map ascii_upper p"

text \<open>An unanchored pattern is tried at every start position, from the left.\<close>

fun match_somewhere :: "(jstr \<Rightarrow> bool) \<Rightarrow> jstr \<Rightarrow> bool" where
  "match_somewhere m [] = m []"
| "match_somewhere m (c # cs) = (m (c # cs) \<or> match_somewhere m cs)"

text \<open>\<open>/NO RESERVATION, NO CLASS\./i\<close>\<close>

definition no_reservation :: "jstr \<Rightarrow> bool" where
  "no_reservation line = match_somewhere (ci_prefix (js ''NO RESERVATION, NO CLASS.'')) line"

text \<open>
  \<open>/MORE THAN\s+5\s+MIN/i\<close>, tried at one start position. The character after each
  \<open>\s+\<close> is not white space, so the greedy match of \<open>\s+\<close> is the only one that can
  succeed.
\<close>

definition more_than_at :: "jstr \<Rightarrow> bool" where
  "more_than_at s \<longleftrightarrow>
     ci_prefix (js ''MORE THAN'') s \<and>
     (let r1 = drop 9 s; r2 = dropWhile is_ws r1
      in takeWhile is_ws r1 \<noteq> [] \<and> take 1 r2 = js ''5'' \<and>
         (let r3 = drop 1 r2; r4 = dropWhile is_ws r3
          in takeWhile is_ws r3 \<noteq> [] \<and> ci_prefix (js ''MIN'') r4))"

definition more_than_5_min :: "jstr \<Rightarrow> bool" where
  "more_than_5_min line = match_somewhere more_than_at line"

text \<open>
  \<open>.replace(/\n{3,}/g, '\n\n')\<close>: scanning from the left, a run of three or more LF is
  matched whole (the quantifier is greedy) and replaced by two LF.
\<close>

function collapse_newlines :: "jstr \<Rightarrow> jstr" where
  "collapse_newlines [] = []"
| "collapse_newlines (c # cs) =
     (if 3 \<le> length (takeWhile (\<lambda>x. x = LF) (c # cs))
      then LF # LF # collapse_newlines (dropWhile (\<lambda>x. x = LF) (c # cs))
      else c # collapse_newlines cs)"
  by pat_completeness auto
termination
proof (relation "measure length")
  fix c :: nat and cs :: jstr
  assume "3 \<le> length (takeWhile (\<lambda>x. x = LF) (c # cs))"
  then have "c = LF" by (auto split: if_splits)
  then have "dropWhile (\<lambda>x. x = LF) (c # cs) = dropWhile (\<lambda>x. x = LF) cs" by simp
  then show "(dropWhile (\<lambda>x. x = LF) (c # cs), c # cs) \<in> measure length"
    using length_dropWhile_le [of "\<lambda>x. x = LF" cs] by simp
qed simp_all

definition stripAnnoyingLines :: "jstr \<Rightarrow> jstr" where
  "stripAnnoyingLines text =
     trim (collapse_newlines (join_lines
       (filter (\<lambda>line. \<not> more_than_5_min line)
         (filter (\<lambda>line. \<not> no_reservation line) (split_lines text)))))"

section \<open>The block parser (\<open>parseWodPage\<close>)\<close>

record entry =
  date :: jstr
  loc :: jstr
  program :: jstr
  body :: jstr

text \<open>\<open>lines[k]\<close> is \<open>undefined\<close> from the length on.\<close>

definition nth_opt :: "'a list \<Rightarrow> nat \<Rightarrow> 'a option" where
  "nth_opt xs k = (if k < length xs then Some (xs ! k) else None)"

text \<open>\<open>a ?? b\<close>\<close>

definition nullish :: "'a option \<Rightarrow> 'a option \<Rightarrow> 'a option" where
  "nullish a b = (case a of None \<Rightarrow> b | Some x \<Rightarrow> Some x)"

text \<open>\<open>v.trim()\<close> throws a TypeError on \<open>undefined\<close>; \<open>v?.trim()\<close> gives \<open>undefined\<close>.\<close>

definition call_trim :: "jstr option \<Rightarrow> error + jstr" where
  "call_trim v = (case v of None \<Rightarrow> Inl TypeError | Some s \<Rightarrow> Inr (trim s))"

definition is_digit :: "nat \<Rightarrow> bool" where
  "is_digit c \<longleftrightarrow> 48 \<le> c \<and> c \<le> 57"

text \<open>\<open>\d{2}\/\d{2}\/\d{4}\<close> on a whole text\<close>

definition is_date_text :: "jstr \<Rightarrow> bool" where
  "is_date_text d \<longleftrightarrow>
     (case d of
        [d1, d2, s1, m1, m2, s2, y1, y2, y3, y4] \<Rightarrow>
          is_digit d1 \<and> is_digit d2 \<and> s1 = 47 \<and> is_digit m1 \<and> is_digit m2 \<and> s2 = 47 \<and>
          is_digit y1 \<and> is_digit y2 \<and> is_digit y3 \<and> is_digit y4
      | _ \<Rightarrow> False)"

text \<open>
  \<open>s.match(/^####\s+(\d{2}\/\d{2}\/\d{4})\s*$/)\<close>, giving the captured date. A digit is
  not white space, so \<open>\s+\<close> can only end where the white space ends.
\<close>

definition match_date_header :: "jstr \<Rightarrow> jstr option" where
  "match_date_header s =
     (let r = drop 4 s; d = dropWhile is_ws r
      in if take 4 s = js ''####'' \<and> takeWhile is_ws r \<noteq> [] \<and>
            is_date_text (take 10 d) \<and> list_all is_ws (drop 10 d)
         then Some (take 10 d) else None)"

text \<open>\<open>lines[i]?.trim()\<close> followed by \<open>?.match(...)\<close> or \<open>.test(...)\<close>\<close>

definition date_header_at :: "jstr list \<Rightarrow> nat \<Rightarrow> jstr option" where
  "date_header_at lines i = Option.bind (map_option trim (nth_opt lines i)) match_date_header"

text \<open>\<open>s.replace(/^####\s+/, '')\<close>\<close>

definition strip_hashes :: "jstr \<Rightarrow> jstr" where
  "strip_hashes s =
     (if take 4 s = js ''####'' \<and> takeWhile is_ws (drop 4 s) \<noteq> []
      then dropWhile is_ws (drop 4 s) else s)"

definition locLine :: "jstr list \<Rightarrow> nat \<Rightarrow> error + jstr" where
  "locLine lines i =
     call_trim (nullish (nth_opt lines (i + 2)) (nullish (nth_opt lines (i + 1)) (Some [])))"

definition progLine :: "jstr list \<Rightarrow> nat \<Rightarrow> error + jstr" where
  "progLine lines i =
     call_trim (nullish (nth_opt lines (i + 3)) (nullish (nth_opt lines (i + 2)) (Some [])))"

text \<open>The inner loop: body lines are collected up to the next date header or the end.\<close>

function body_loop :: "jstr list \<Rightarrow> nat \<Rightarrow> jstr list \<Rightarrow> nat \<times> jstr list" where
  "body_loop lines i acc =
     (if i < length lines
      then (if date_header_at lines i \<noteq> None then (i, acc)
            else body_loop lines (i + 1) (acc @ [lines ! i]))
      else (i, acc))"
  by pat_completeness auto
termination
  by (relation "measure (\<lambda>(lines, i, acc). length lines - i)") auto

declare body_loop.simps [simp del]

lemma body_loop_ge: "i \<le> fst (body_loop lines i acc)"
proof (induction lines i acc rule: body_loop.induct)
  case (1 lines i acc)
  show ?case
  proof (cases "i < length lines \<and> date_header_at lines i = None")
    case True
    then have "body_loop lines i acc = body_loop lines (i + 1) (acc @ [lines ! i])"
      by (subst body_loop.simps) simp
    with 1 True show ?thesis by fastforce
  next
    case False
    then show ?thesis by (subst body_loop.simps) auto
  qed
qed

text \<open>The outer loop, from line \<open>i\<close> with the entries pushed so far.\<close>

function parse_loop :: "jstr list \<Rightarrow> jstr \<Rightarrow> nat \<Rightarrow> entry list \<Rightarrow> error + entry list" where
  "parse_loop lines target i entries =
     (if i < length lines
      then (case date_header_at lines i of
              None \<Rightarrow> parse_loop lines target (i + 1) entries
            | Some d \<Rightarrow>
                (case locLine lines i of
                   Inl e \<Rightarrow> Inl e
                 | Inr ll \<Rightarrow>
                     (case progLine lines i of
                        Inl e \<Rightarrow> Inl e
                      | Inr pl \<Rightarrow>
                          parse_loop lines target (fst (body_loop lines (i + 4) []))
                            (if d = target
                             then entries @
                               [\<lparr>date = d,
                                 loc = trim (strip_hashes ll),
                                 program = trim (strip_hashes pl),
                                 body = stripAnnoyingLines
                                          (join_lines (snd (body_loop lines (i + 4) [])))\<rparr>]
                             else entries))))
      else Inr entries)"
  by pat_completeness auto
termination
proof (relation "measure (\<lambda>(lines, target, i, entries). length lines - i)")
  fix lines :: "jstr list" and target :: jstr and i :: nat and entries :: "entry list"
  assume "i < length lines"
  then show "((lines, target, fst (body_loop lines (i + 4) []),
               if d = target then entries @ [e] else entries),
              (lines, target, i, entries))
             \<in> measure (\<lambda>(lines, target, i, entries). length lines - i)" for d e
    using body_loop_ge [of "i + 4" lines "[]"] by simp
qed simp_all

declare parse_loop.simps [simp del]

definition parseWodPage :: "jstr \<Rightarrow> jstr \<Rightarrow> error + entry list" where
  "parseWodPage markdown targetDDMMYYYY =
     parse_loop (split_lines markdown) targetDDMMYYYY 0 []"

text \<open>
  The positions of the outer loop: \<open>scan_reaches lines j i\<close> holds when the loop, with its
  index at \<open>j\<close>, has its index at \<open>i\<close> now or after some of its steps. A step is the one
  of \<open>parse_loop\<close>: to the next line where line \<open>j\<close> is no date header, and past the header
  block and the body where it is one.
\<close>

function scan_reaches :: "jstr list \<Rightarrow> nat \<Rightarrow> nat \<Rightarrow> bool" where
  "scan_reaches lines j i =
     (if j = i then True
      else if j < length lines
      then (case date_header_at lines j of
              None \<Rightarrow> scan_reaches lines (j + 1) i
            | Some d \<Rightarrow> scan_reaches lines (fst (body_loop lines (j + 4) [])) i)
      else False)"
  by pat_completeness auto
termination
proof (relation "measure (\<lambda>(lines, j, i). length lines - j)")
  fix lines :: "jstr list" and j :: nat
  assume "j < length lines"
  then show "((lines, fst (body_loop lines (j + 4) []), i), (lines, j, i))
             \<in> measure (\<lambda>(lines, j, i). length lines - j)" for i :: nat
    using body_loop_ge [of "j + 4" lines "[]"] by simp
qed simp_all

declare scan_reaches.simps [simp del]

section \<open>The remote store as the scripts see it\<close>

text \<open>
  What the scripts read of a JSON object of a result list: a child block's \<open>id\<close>, \<open>type\<close>
  and the plain texts of its rich text; a database row's \<open>Location\<close> plain texts and the
  name of its \<open>Type\<close> select. A field that is absent is \<open>None\<close>.
\<close>

record item =
  item_id :: jstr
  item_type :: "jstr option"
  block_plain_texts :: "jstr list option"
  location_plain_texts :: "jstr list option"
  type_select_name :: "jstr option"

record response =
  ok :: bool
  status :: nat
  results :: "item list option"
  has_more :: bool
  next_cursor :: "jstr option"

text \<open>The properties of a row as \<open>createWodRow\<close> sends them.\<close>

record row =
  Name :: "rich_text list"
  Date :: jstr
  Location :: "rich_text list"
  Type :: jstr
  Source :: jstr
  WOD :: "rich_text list"

text \<open>
  The three requests of the scripts: the children of a block (page size, start cursor),
  a database query (page size, start cursor, the date the \<open>Date\<close> property equals), and the
  creation of a row in a database.
\<close>

datatype request =
    GetChildren jstr nat "jstr option"
  | QueryDatabase jstr nat "jstr option" jstr
  | CreatePage jstr row

text \<open>
  The remote API is a parameter: any function from its state and a request to a response
  and its next state. A run carries that state and the requests issued so far.
\<close>

type_synonym 's remote = "'s \<Rightarrow> request \<Rightarrow> response \<times> 's"

record 's world =
  store :: 's
  requests :: "request list"

definition notionReq :: "'s remote \<Rightarrow> 's world \<Rightarrow> request \<Rightarrow> (error + response) \<times> 's world" where
  "notionReq R w req =
     (let res = fst (R (store w) req);
          w' = \<lparr>store = snd (R (store w) req), requests = requests w @ [req]\<rparr>
      in (if ok res then Inr res else Inl (NotionApiError (status res)), w'))"

section \<open>The sync script (\<open>daily_wod_to_notion_db.mjs\<close>)\<close>

definition getChildDatabaseId :: "'s remote \<Rightarrow> 's world \<Rightarrow> jstr \<Rightarrow> (error + jstr) \<times> 's world" where
  "getChildDatabaseId R w pageId =
     (case notionReq R w (GetChildren pageId 100 None) of
        (Inl e, w') \<Rightarrow> (Inl e, w')
      | (Inr data, w') \<Rightarrow>
          (case (case results data of
                   None \<Rightarrow> None
                 | Some bs \<Rightarrow> find (\<lambda>b. item_type b = Some (js ''child_database'')) bs) of
             None \<Rightarrow> (Inl NoChildDatabase, w')
           | Some db \<Rightarrow> (Inr (item_id db), w')))"

text \<open>The key of a stored row: \<open>`${loc}__${type}`\<close>, absent fields read as empty strings.\<close>

definition existing_key :: "item \<Rightarrow> jstr" where
  "existing_key p =
     (case location_plain_texts p of None \<Rightarrow> [] | Some ts \<Rightarrow> concat ts) @ js ''__'' @
     (case type_select_name p of None \<Rightarrow> [] | Some name \<Rightarrow> name)"

definition queryExistingForDate ::
  "'s remote \<Rightarrow> 's world \<Rightarrow> jstr \<Rightarrow> jstr \<Rightarrow> (error + jstr set) \<times> 's world" where
  "queryExistingForDate R w databaseId isoDate =
     (case notionReq R w (QueryDatabase databaseId 100 None isoDate) of
        (Inl e, w') \<Rightarrow> (Inl e, w')
      | (Inr res, w') \<Rightarrow>
          (Inr (set (map existing_key (case results res of None \<Rightarrow> [] | Some ps \<Rightarrow> ps))), w'))"

text \<open>The em dash of the title is the code unit U+2014.\<close>

definition row_of_entry :: "jstr \<Rightarrow> entry \<Rightarrow> row" where
  "row_of_entry isoDate e =
     \<lparr>Name = notionRichText
               (Some (slice (isoDate @ [32, 8212, 32] @ loc e @ [32, 8212, 32] @ program e) 0 180)),
      Date = isoDate,
      Location = notionRichText (Some (loc e)),
      Type = (if program e = [] then js ''WOD'' else program e),
      Source = js ''https://vfuae.com/wod/'',
      WOD = notionRichText (Some (body e))\<rparr>"

definition createWodRow ::
  "'s remote \<Rightarrow> 's world \<Rightarrow> jstr \<Rightarrow> jstr \<Rightarrow> entry \<Rightarrow> (error + response) \<times> 's world" where
  "createWodRow R w databaseId isoDate e =
     notionReq R w (CreatePage databaseId (row_of_entry isoDate e))"

text \<open>The key of a parsed entry: \<open>`${e.loc}__${e.program}`\<close>.\<close>

definition entry_key :: "entry \<Rightarrow> jstr" where
  "entry_key e = loc e @ js ''__'' @ program e"

text \<open>
  The loop over the entries, with the counters \<open>created\<close> and \<open>skipped\<close>. A failed create
  throws, which ends the run.
\<close>

fun sync_loop ::
  "'s remote \<Rightarrow> 's world \<Rightarrow> jstr \<Rightarrow> jstr \<Rightarrow> jstr set \<Rightarrow> entry list \<Rightarrow> nat \<Rightarrow> nat \<Rightarrow>
   (error + nat \<times> nat) \<times> 's world" where
  "sync_loop R w databaseId isoDate existingKeys [] created skipped =
     (Inr (created, skipped), w)"
| "sync_loop R w databaseId isoDate existingKeys (e # es) created skipped =
     (if entry_key e \<in> existingKeys
      then sync_loop R w databaseId isoDate existingKeys es created (skipped + 1)
      else (case createWodRow R w databaseId isoDate e of
              (Inl err, w') \<Rightarrow> (Inl err, w')
            | (Inr res, w') \<Rightarrow>
                sync_loop R w' databaseId isoDate existingKeys es (created + 1) skipped))"

text \<open>\<open>iso.split('-')\<close>\<close>

fun split_dash :: "jstr \<Rightarrow> jstr list" where
  "split_dash [] = [[]]"
| "split_dash (c # cs) =
     (if c = 45 then [] # split_dash cs
      else (case split_dash cs of
              [] \<Rightarrow> [[c]]
            | p # ps \<Rightarrow> (c # p) # ps))"

text \<open>A missing part of the destructuring is \<open>undefined\<close> and is printed so.\<close>

definition template_part :: "jstr option \<Rightarrow> jstr" where
  "template_part v = (case v of None \<Rightarrow> js ''undefined'' | Some s \<Rightarrow> s)"

definition ddmmyyyyFromISO :: "jstr \<Rightarrow> jstr" where
  "ddmmyyyyFromISO isoText =
     (let parts = split_dash isoText
      in template_part (nth_opt parts 2) @ [47] @ template_part (nth_opt parts 1) @ [47] @
         template_part (nth_opt parts 0))"

text \<open>The environment after \<open>loadEnv\<close>; \<open>!v\<close> holds of a missing and of an empty value.\<close>

record env =
  NOTION_TOKEN :: "jstr option"
  NOTION_PAGE_ID :: "jstr option"
  WOD_MARKDOWN :: "jstr option"

definition falsy :: "jstr option \<Rightarrow> bool" where
  "falsy v \<longleftrightarrow> v = None \<or> v = Some []"

definition str_of :: "jstr option \<Rightarrow> jstr" where
  "str_of v = (case v of None \<Rightarrow> [] | Some s \<Rightarrow> s)"

record summary =
  created :: nat
  skipped :: nat
  total :: nat

text \<open>
  \<open>main\<close>, with the date of \<open>dubaiTodayISO()\<close> as \<open>isoDate\<close>. The result is the error thrown
  or the counts of the summary line, and the world after the run.
\<close>

definition main :: "'s remote \<Rightarrow> 's world \<Rightarrow> env \<Rightarrow> jstr \<Rightarrow> (error + summary) \<times> 's world" where
  "main R w ev isoDate =
     (if falsy (NOTION_TOKEN ev) then (Inl MissingToken, w)
      else if falsy (NOTION_PAGE_ID ev) then (Inl MissingPageId, w)
      else if falsy (WOD_MARKDOWN ev) then (Inl MissingMarkdown, w)
      else (case parseWodPage (str_of (WOD_MARKDOWN ev)) (ddmmyyyyFromISO isoDate) of
              Inl e \<Rightarrow> (Inl e, w)
            | Inr entries \<Rightarrow>
                if entries = [] then (Inl (NoEntriesFound (ddmmyyyyFromISO isoDate)), w)
                else (case getChildDatabaseId R w (str_of (NOTION_PAGE_ID ev)) of
                        (Inl e, w1) \<Rightarrow> (Inl e, w1)
                      | (Inr databaseId, w1) \<Rightarrow>
                          (case queryExistingForDate R w1 databaseId isoDate of
                             (Inl e, w2) \<Rightarrow> (Inl e, w2)
                           | (Inr existingKeys, w2) \<Rightarrow>
                               (case sync_loop R w2 databaseId isoDate existingKeys entries 0 0 of
                                  (Inl e, w3) \<Rightarrow> (Inl e, w3)
                                | (Inr (c, k), w3) \<Rightarrow>
                                    (Inr \<lparr>created = c, skipped = k, total = length entries\<rparr>,
                                     w3))))))"

section \<open>The diagnostic lister (\<open>notion_inspect_page.mjs\<close>)\<close>

text \<open>\<open>if (cursor)\<close> sends the cursor only when it is a non-empty string.\<close>

definition listChildren ::
  "'s remote \<Rightarrow> 's world \<Rightarrow> jstr \<Rightarrow> jstr option \<Rightarrow> (error + response) \<times> 's world" where
  "listChildren R w blockId cursor =
     notionReq R w (GetChildren blockId 100 (if falsy cursor then None else cursor))"

definition blockPlainText :: "item \<Rightarrow> jstr" where
  "blockPlainText b = (case block_plain_texts b of None \<Rightarrow> [] | Some ts \<Rightarrow> concat ts)"

record inspect_state =
  n :: nat
  types :: "(jstr option \<times> nat) list"
  sample :: "(jstr \<times> jstr option \<times> jstr) list"

text \<open>\<open>types.set(b.type, (types.get(b.type) ?? 0) + 1)\<close> on a map that keeps insertion order\<close>

fun bump_type :: "jstr option \<Rightarrow> (jstr option \<times> nat) list \<Rightarrow> (jstr option \<times> nat) list" where
  "bump_type ty [] = [(ty, 1)]"
| "bump_type ty ((k, v) # kvs) =
     (if k = ty then (k, v + 1) # kvs else (k, v) # bump_type ty kvs)"

definition visit :: "inspect_state \<Rightarrow> item \<Rightarrow> inspect_state" where
  "visit st b =
     \<lparr>n = n st + 1,
      types = bump_type (item_type b) (types st),
      sample = (if length (sample st) < 40
                then sample st @ [(item_id b, item_type b, slice (blockPlainText b) 0 120)]
                else sample st)\<rparr>"

text \<open>
  The loop \<open>while (true)\<close> of the lister ends only on a page without \<open>has_more\<close>; a remote
  that always reports more pages keeps it running. The model counts the pages it may
  still request and gives \<open>None\<close> when that bound is used up. Iterating over a missing
  \<open>results\<close> throws a TypeError.
\<close>

fun inspect_loop ::
  "nat \<Rightarrow> 's remote \<Rightarrow> 's world \<Rightarrow> jstr \<Rightarrow> jstr option \<Rightarrow> inspect_state \<Rightarrow>
   ((error + inspect_state) \<times> 's world) option" where
  "inspect_loop 0 R w pageId cursor st = None"
| "inspect_loop (Suc fuel) R w pageId cursor st =
     (case listChildren R w pageId cursor of
        (Inl e, w') \<Rightarrow> Some (Inl e, w')
      | (Inr res, w') \<Rightarrow>
          (case results res of
             None \<Rightarrow> Some (Inl TypeError, w')
           | Some bs \<Rightarrow>
               if \<not> has_more res then Some (Inr (foldl visit st bs), w')
               else inspect_loop fuel R w' pageId (next_cursor res) (foldl visit st bs)))"

section \<open>A reference store\<close>

text \<open>
  An in-memory remote with the behaviour the scripts rely on: one page with its child
  blocks, one database with its rows in creation order, lists served in pages of the
  requested size with a cursor that encodes the offset of the next page, and a row
  created by every create request. It is used to run the scripts on concrete inputs.
\<close>

record notion =
  child_blocks :: "item list"
  db_rows :: "row list"

definition offset_of :: "jstr option \<Rightarrow> nat" where
  "offset_of cursor = (case cursor of Some [k] \<Rightarrow> k | _ \<Rightarrow> 0)"

definition page_of :: "item list \<Rightarrow> nat \<Rightarrow> jstr option \<Rightarrow> response" where
  "page_of xs page_size cursor =
     \<lparr>ok = True, status = 200,
      results = Some (take page_size (drop (offset_of cursor) xs)),
      has_more = (offset_of cursor + page_size < length xs),
      next_cursor = (if offset_of cursor + page_size < length xs
                     then Some [offset_of cursor + page_size] else None)\<rparr>"

definition item_of_row :: "row \<Rightarrow> item" where
  "item_of_row r =
     \<lparr>item_id = [], item_type = None, block_plain_texts = None,
      location_plain_texts = Some (map content (Location r)),
      type_select_name = Some (Type r)\<rparr>"

fun notion_api :: "notion remote" where
  "notion_api s (GetChildren blockId page_size cursor) = (page_of (child_blocks s) page_size cursor, s)"
| "notion_api s (QueryDatabase databaseId page_size cursor isoDate) =
     (page_of (map item_of_row (filter (\<lambda>r. Date r = isoDate) (db_rows s))) page_size cursor, s)"
| "notion_api s (CreatePage databaseId r) =
     (\<lparr>ok = True, status = 200, results = None, has_more = False, next_cursor = None\<rparr>,
      s\<lparr>db_rows := db_rows s @ [r]\<rparr>)"

text \<open>The same store behind a remote that answers every create with status 500.\<close>

fun refusing_api :: "notion remote" where
  "refusing_api s (CreatePage databaseId r) =
     (\<lparr>ok = False, status = 500, results = None, has_more = False, next_cursor = None\<rparr>, s)"
| "refusing_api s (GetChildren blockId page_size cursor) =
     notion_api s (GetChildren blockId page_size cursor)"
| "refusing_api s (QueryDatabase databaseId page_size cursor isoDate) =
     notion_api s (QueryDatabase databaseId page_size cursor isoDate)"

subsection \<open>Inputs of the example runs\<close>

definition db_block :: item where
  "db_block = \<lparr>item_id = js ''db-1'', item_type = Some (js ''child_database''),
               block_plain_texts = None, location_plain_texts = None,
               type_select_name = None\<rparr>"

definition paragraph_block :: item where
  "paragraph_block = \<lparr>item_id = js ''p'', item_type = Some (js ''paragraph''),
                      block_plain_texts = Some [js ''note''], location_plain_texts = None,
                      type_select_name = None\<rparr>"

definition env_with :: "jstr \<Rightarrow> env" where
  "env_with md = \<lparr>NOTION_TOKEN = Some (js ''secret''), NOTION_PAGE_ID = Some (js ''page-1''),
                  WOD_MARKDOWN = Some md\<rparr>"

definition world_with :: "item list \<Rightarrow> row list \<Rightarrow> notion world" where
  "world_with blocks rows = \<lparr>store = \<lparr>child_blocks = blocks, db_rows = rows\<rparr>, requests = []\<rparr>"

definition two_gyms_md :: jstr where
  "two_gyms_md = join_lines
     [js ''#### 01/02/2026'', [], js ''#### Gym A'', js ''#### CrossFit'', js ''Warm up'',
      js ''5 rounds'', [],
      js ''#### 01/02/2026'', [], js ''#### Gym B'', js ''#### Open Gym'', js ''Free lift'', []]"

definition same_gym_twice_md :: jstr where
  "same_gym_twice_md = join_lines
     [js ''#### 01/02/2026'', [], js ''#### Gym A'', js ''#### CrossFit'', js ''Warm up'',
      js ''#### 01/02/2026'', [], js ''#### Gym A'', js ''#### CrossFit'', js ''Warm up'']"

definition no_program_md :: jstr where
  "no_program_md = join_lines
     [js ''#### 01/02/2026'', [], js ''#### Gym A'', [], js ''Warm up'']"

definition three_blocks_lines :: "jstr list" where
  "three_blocks_lines =
     [js ''Schedule'',
      js ''#### 01/02/2026'', [], js ''#### Gym A'', js ''#### CrossFit'', js ''Warm up'',
      js ''#### 01/02/2026'', [], js ''#### Gym B'', js ''#### Open Gym'',
      js ''#### 02/02/2026'', [], js ''#### Gym C'', js ''#### Yoga'', js ''Stretch'']"

definition header_in_block_lines :: "jstr list" where
  "header_in_block_lines =
     [js ''#### 01/02/2026'', js ''#### 01/02/2026'', [], js ''#### Gym A'', js ''#### CrossFit'',
      js ''#### 01/02/2026'', [], js ''#### Gym B'', js ''#### Open Gym'', js ''Free lift'']"

definition gym_row :: "jstr \<Rightarrow> jstr \<Rightarrow> jstr \<Rightarrow> row" where
  "gym_row l p b =
     row_of_entry (js ''2026-02-01'') \<lparr>date = js ''01/02/2026'', loc = l, program = p, body = b\<rparr>"

section \<open>Properties of the segmenting\<close>

lemma chunk_loop_acc: "chunk_loop s i chunks = chunks @ chunk_loop s i []"
proof (induction "length s - i" arbitrary: i chunks rule: less_induct)
  case less
  show ?case
  proof (cases "i < length s")
    case True
    let ?c = "slice s i (i + max_chunk)"
    have dec: "length s - (i + max_chunk) < length s - i"
      using True by (simp add: max_chunk_def)
    have "chunk_loop s i chunks = chunk_loop s (i + max_chunk) (chunks @ [?c])"
      using True by (subst chunk_loop.simps) simp
    also have "\<dots> = (chunks @ [?c]) @ chunk_loop s (i + max_chunk) []"
      using less [OF dec] .
    also have "\<dots> = chunks @ chunk_loop s (i + max_chunk) ([] @ [?c])"
      using less [OF dec, of "[] @ [?c]"] by simp
    also have "chunk_loop s (i + max_chunk) ([] @ [?c]) = chunk_loop s i []"
      using True by (subst (2) chunk_loop.simps) simp
    finally show ?thesis .
  next
    case False
    then show ?thesis by (simp add: chunk_loop.simps [of s i])
  qed
qed

lemma chunk_loop_step:
  "i < length s \<Longrightarrow>
   chunk_loop s i [] = slice s i (i + max_chunk) # chunk_loop s (i + max_chunk) []"
  using chunk_loop_acc [of s "i + max_chunk" "[slice s i (i + max_chunk)]"]
  by (simp add: chunk_loop.simps [of s i "[]"])

lemma chunk_loop_done: "\<not> i < length s \<Longrightarrow> chunk_loop s i [] = []"
  by (simp add: chunk_loop.simps [of s i])

lemma chunk_loop_concat: "concat (chunk_loop s i []) = drop i s"
proof (induction "length s - i" arbitrary: i rule: less_induct)
  case less
  show ?case
  proof (cases "i < length s")
    case True
    have dec: "length s - (i + max_chunk) < length s - i"
      using True by (simp add: max_chunk_def)
    have "concat (chunk_loop s i []) = take max_chunk (drop i s) @ drop (i + max_chunk) s"
      using True less [OF dec] by (simp add: chunk_loop_step slice_def)
    also have "\<dots> = drop i s"
      by (metis add.commute append_take_drop_id drop_drop)
    finally show ?thesis .
  next
    case False
    then show ?thesis by (simp add: chunk_loop_done)
  qed
qed

lemma chunk_loop_bound: "c \<in> set (chunk_loop s i []) \<Longrightarrow> length c \<le> max_chunk"
proof (induction "length s - i" arbitrary: i rule: less_induct)
  case less
  show ?case
  proof (cases "i < length s")
    case True
    have dec: "length s - (i + max_chunk) < length s - i"
      using True by (simp add: max_chunk_def)
    from less.prems True
    have "c = slice s i (i + max_chunk) \<or> c \<in> set (chunk_loop s (i + max_chunk) [])"
      by (simp add: chunk_loop_step)
    then show ?thesis
      using less.hyps [OF dec] by (auto simp: slice_def)
  next
    case False
    with less.prems show ?thesis by (simp add: chunk_loop_done)
  qed
qed

text \<open>
  C5 (as the code has it). For every text that is not empty after trimming, the segments
  are at most 1800 code units long each and their concatenation, in order, is the text;
  a text that trims to the empty string (empty or whitespace only) has no segment.
\<close>

theorem notionRichText_roundtrip:
  "(trim s \<noteq> [] \<longrightarrow>
      concat (map content (notionRichText (Some s))) = s) \<and>
   (trim s = [] \<longrightarrow> notionRichText (Some s) = []) \<and>
   (\<forall>seg \<in> set (notionRichText (Some s)). length (content seg) \<le> 1800)"
proof -
  have a: "concat (map content (map Text (chunk_loop s 0 []))) = s"
    using chunk_loop_concat [of s 0] by (simp add: comp_def)
  have b: "\<forall>seg \<in> set (map Text (chunk_loop s 0 [])). length (content seg) \<le> 1800"
    using chunk_loop_bound [of _ s 0] by (auto simp: max_chunk_def)
  show ?thesis
    using a b unfolding notionRichText_def Let_def by simp
qed

theorem notionRichText_roundtrip_witness:
  "trim (js ''5 rounds'') \<noteq> [] \<and>
   notionRichText (Some (js ''5 rounds'')) = [Text (js ''5 rounds'')] \<and>
   concat (map content (notionRichText (Some (js ''5 rounds'')))) = js ''5 rounds''"
proof -
  have ne: "trim (js ''5 rounds'') \<noteq> []"
    by (simp add: js_def trim_def is_ws_def)
  have one: "chunk_loop (js ''5 rounds'') 0 [] = [js ''5 rounds'']"
    by (simp add: chunk_loop_step chunk_loop_done slice_def max_chunk_def js_def)
  show ?thesis
    using ne one notionRichText_roundtrip [of "js ''5 rounds''"]
    by (simp add: notionRichText_def)
qed

text \<open>
  The claim as stated fails on a text of one space: it has no segment, so the
  concatenation of its segments is empty and not the text.
\<close>

theorem notionRichText_whitespace_counterexample:
  "concat (map content (notionRichText (Some (js '' '')))) \<noteq> js '' ''"
  by (simp add: notionRichText_def js_def trim_def is_ws_def)

section \<open>Properties of the parser\<close>

lemma body_loop_end: "\<not> i < length lines \<Longrightarrow> body_loop lines i acc = (i, acc)"
  by (subst body_loop.simps) simp

lemma body_loop_stop:
  "i < length lines \<Longrightarrow> date_header_at lines i = Some d \<Longrightarrow> body_loop lines i acc = (i, acc)"
  by (subst body_loop.simps) simp

lemma body_loop_next:
  "i < length lines \<Longrightarrow> date_header_at lines i = None \<Longrightarrow>
   body_loop lines i acc = body_loop lines (i + 1) (acc @ [lines ! i])"
  by (subst body_loop.simps) simp

lemma locLine_eq:
  "locLine lines i =
     Inr (trim (if i + 2 < length lines then lines ! (i + 2)
                else if i + 1 < length lines then lines ! (i + 1) else []))"
  by (simp add: locLine_def call_trim_def nullish_def nth_opt_def)

lemma progLine_eq:
  "progLine lines i =
     Inr (trim (if i + 3 < length lines then lines ! (i + 3)
                else if i + 2 < length lines then lines ! (i + 2) else []))"
  by (simp add: progLine_def call_trim_def nullish_def nth_opt_def)

lemma parse_loop_end: "\<not> i < length lines \<Longrightarrow> parse_loop lines target i entries = Inr entries"
  by (subst parse_loop.simps) simp

lemma parse_loop_skip:
  "i < length lines \<Longrightarrow> date_header_at lines i = None \<Longrightarrow>
   parse_loop lines target i entries = parse_loop lines target (i + 1) entries"
  by (subst parse_loop.simps) simp

lemma parse_loop_header:
  "i < length lines \<Longrightarrow> date_header_at lines i = Some d \<Longrightarrow>
   locLine lines i = Inr ll \<Longrightarrow> progLine lines i = Inr pl \<Longrightarrow>
   parse_loop lines target i entries =
     parse_loop lines target (fst (body_loop lines (i + 4) []))
       (if d = target
        then entries @ [\<lparr>date = d, loc = trim (strip_hashes ll),
                          program = trim (strip_hashes pl),
                          body = stripAnnoyingLines
                                   (join_lines (snd (body_loop lines (i + 4) [])))\<rparr>]
        else entries)"
  by (subst parse_loop.simps) simp

lemma parse_loop_total: "\<exists>es. parse_loop lines target i entries = Inr (entries @ es)"
proof (induction "length lines - i" arbitrary: i entries rule: less_induct)
  case less
  show ?case
  proof (cases "i < length lines")
    case False
    then show ?thesis by (simp add: parse_loop_end)
  next
    case inside: True
    show ?thesis
    proof (cases "date_header_at lines i")
      case None
      have "length lines - (i + 1) < length lines - i" using inside by simp
      from less [OF this, of entries] show ?thesis
        using inside None by (simp add: parse_loop_skip)
    next
      case (Some d)
      obtain ll pl where ll: "locLine lines i = Inr ll" and pl: "progLine lines i = Inr pl"
        by (simp add: locLine_eq progLine_eq)
      let ?j = "fst (body_loop lines (i + 4) [])"
      have "length lines - ?j < length lines - i"
        using inside body_loop_ge [of "i + 4" lines "[]"] by simp
      note ih = less [OF this]
      show ?thesis
      proof (cases "d = target")
        case True
        from ih [of "entries @ [\<lparr>date = d, loc = trim (strip_hashes ll),
                          program = trim (strip_hashes pl),
                          body = stripAnnoyingLines
                                   (join_lines (snd (body_loop lines (i + 4) [])))\<rparr>]"]
        show ?thesis
          using True by (fastforce simp: parse_loop_header [OF inside Some ll pl])
      next
        case False
        from ih [of entries] show ?thesis
          using False by (simp add: parse_loop_header [OF inside Some ll pl])
      qed
    qed
  qed
qed



lemmas parser_eval =
  body_loop_end body_loop_stop body_loop_next parse_loop_end parse_loop_skip parse_loop_header
  locLine_eq progLine_eq
  parseWodPage_def js_def LF_def CR_def date_header_at_def nth_opt_def match_date_header_def
  trim_def is_ws_def is_date_text_def is_digit_def strip_hashes_def stripAnnoyingLines_def
  no_reservation_def more_than_5_min_def more_than_at_def ci_prefix_def ascii_upper_def



lemma stripAnnoyingLines_empty: "stripAnnoyingLines [] = []"
  by (simp add: stripAnnoyingLines_def no_reservation_def more_than_5_min_def
      more_than_at_def ci_prefix_def trim_def js_def)

lemma scan_reaches_refl: "scan_reaches lines i i"
  by (subst scan_reaches.simps) simp

lemma scan_reaches_skip:
  "j \<noteq> i \<Longrightarrow> j < length lines \<Longrightarrow> date_header_at lines j = None \<Longrightarrow>
   scan_reaches lines j i = scan_reaches lines (j + 1) i"
  by (subst scan_reaches.simps) simp

lemma scan_reaches_block:
  "j \<noteq> i \<Longrightarrow> j < length lines \<Longrightarrow> date_header_at lines j = Some d \<Longrightarrow>
   scan_reaches lines j i = scan_reaches lines (fst (body_loop lines (j + 4) [])) i"
  by (subst scan_reaches.simps) simp

lemma scan_reaches_end:
  "j \<noteq> i \<Longrightarrow> \<not> j < length lines \<Longrightarrow> \<not> scan_reaches lines j i"
  by (subst scan_reaches.simps) simp

lemma parse_loop_header_any:
  assumes "i < length lines" and "date_header_at lines i = Some d"
  shows "\<exists>ll pl. locLine lines i = Inr ll \<and> progLine lines i = Inr pl \<and>
           parse_loop lines target i entries =
             parse_loop lines target (fst (body_loop lines (i + 4) []))
               (entries @
                (if d = target
                 then [\<lparr>date = d, loc = trim (strip_hashes ll),
                         program = trim (strip_hashes pl),
                         body = stripAnnoyingLines
                                  (join_lines (snd (body_loop lines (i + 4) [])))\<rparr>]
                 else []))"
proof -
  obtain ll pl where ll: "locLine lines i = Inr ll" and pl: "progLine lines i = Inr pl"
    by (simp add: locLine_eq progLine_eq)
  show ?thesis
    using ll pl by (simp add: parse_loop_header [OF assms ll pl])
qed

lemma scan_reaches_parse:
  "scan_reaches lines j i \<Longrightarrow>
   \<exists>es. parse_loop lines target j acc = parse_loop lines target i (acc @ es)"
proof (induction "length lines - j" arbitrary: j acc rule: less_induct)
  case less
  show ?case
  proof (cases "j = i")
    case True
    then show ?thesis by (metis append_Nil2)
  next
    case ne: False
    have inside: "j < length lines"
      using less.prems ne scan_reaches_end by blast
    show ?thesis
    proof (cases "date_header_at lines j")
      case None
      have dec: "length lines - (j + 1) < length lines - j" using inside by simp
      have "scan_reaches lines (j + 1) i"
        using less.prems scan_reaches_skip [OF ne inside None] by simp
      from less.hyps [OF dec this, of acc] show ?thesis
        by (simp add: parse_loop_skip [OF inside None])
    next
      case (Some d)
      let ?k = "fst (body_loop lines (j + 4) [])"
      have dec: "length lines - ?k < length lines - j"
        using inside body_loop_ge [of "j + 4" lines "[]"] by simp
      have reach: "scan_reaches lines ?k i"
        using less.prems scan_reaches_block [OF ne inside Some] by simp
      from parse_loop_header_any [OF inside Some, of target acc]
      obtain e1 where "parse_loop lines target j acc = parse_loop lines target ?k (acc @ e1)"
        by blast
      moreover from less.hyps [OF dec reach, of "acc @ e1"]
      obtain es where "parse_loop lines target ?k (acc @ e1)
                        = parse_loop lines target i ((acc @ e1) @ es)"
        by blast
      ultimately have "parse_loop lines target j acc
                        = parse_loop lines target i (acc @ (e1 @ es))"
        by simp
      then show ?thesis by blast
    qed
  qed
qed

lemma scan_reaches_trans:
  "scan_reaches lines j i \<Longrightarrow> scan_reaches lines i k \<Longrightarrow> scan_reaches lines j k"
proof (induction "length lines - j" arbitrary: j rule: less_induct)
  case less
  show ?case
  proof (cases "j = i \<or> j = k")
    case True
    then show ?thesis using less.prems scan_reaches_refl by auto
  next
    case False
    then have ne: "j \<noteq> i" and nk: "j \<noteq> k" by simp_all
    have inside: "j < length lines"
      using less.prems(1) ne scan_reaches_end by blast
    show ?thesis
    proof (cases "date_header_at lines j")
      case None
      have dec: "length lines - (j + 1) < length lines - j" using inside by simp
      have "scan_reaches lines (j + 1) i"
        using less.prems(1) scan_reaches_skip [OF ne inside None] by simp
      from less.hyps [OF dec this less.prems(2)] show ?thesis
        by (simp add: scan_reaches_skip [OF nk inside None])
    next
      case (Some d)
      let ?n = "fst (body_loop lines (j + 4) [])"
      have dec: "length lines - ?n < length lines - j"
        using inside body_loop_ge [of "j + 4" lines "[]"] by simp
      have "scan_reaches lines ?n i"
        using less.prems(1) scan_reaches_block [OF ne inside Some] by simp
      from less.hyps [OF dec this less.prems(2)] show ?thesis
        by (simp add: scan_reaches_block [OF nk inside Some])
    qed
  qed
qed

text \<open>
  C4 (as the code has it). Take a date header at which the scan stands, that is, one
  that does not lie within the header block of an earlier date header at which the scan
  stood, and let its own header block, the three lines after it, be directly followed by
  the next date header. Then its record has an empty body, the scan stands at that next
  date header, which starts a record of its own, and the result of the parser holds the
  two records in this order, each of them when its date is the target date.
\<close>

theorem header_block_without_body:
  assumes "split_lines markdown = lines"
    and "scan_reaches lines 0 i"
    and "i + 4 < length lines"
    and "date_header_at lines i = Some d"
    and "date_header_at lines (i + 4) = Some d2"
  shows "scan_reaches lines 0 (i + 4) \<and>
         (\<exists>before ll2 pl2 after.
            locLine lines (i + 4) = Inr ll2 \<and> progLine lines (i + 4) = Inr pl2 \<and>
            parseWodPage markdown target =
              Inr (before @
                   (if d = target
                    then [\<lparr>date = d,
                            loc = trim (strip_hashes (trim (lines ! (i + 2)))),
                            program = trim (strip_hashes (trim (lines ! (i + 3)))),
                            body = []\<rparr>]
                    else []) @
                   (if d2 = target
                    then [\<lparr>date = d2,
                            loc = trim (strip_hashes ll2),
                            program = trim (strip_hashes pl2),
                            body = stripAnnoyingLines
                                     (join_lines (snd (body_loop lines (i + 4 + 4) [])))\<rparr>]
                    else []) @
                   after))"
proof -
  let ?e1 = "if d = target
             then [\<lparr>date = d,
                     loc = trim (strip_hashes (trim (lines ! (i + 2)))),
                     program = trim (strip_hashes (trim (lines ! (i + 3)))),
                     body = []\<rparr>]
             else []"
  have i: "i < length lines" using assms(3) by simp
  have stop: "body_loop lines (i + 4) [] = (i + 4, [])"
    using assms(3,5) by (rule body_loop_stop)
  have "scan_reaches lines i (i + 4)"
    using scan_reaches_block [of i "i + 4" lines d] i assms(4) stop scan_reaches_refl
    by simp
  with assms(2) have reach: "scan_reaches lines 0 (i + 4)"
    by (rule scan_reaches_trans)
  from scan_reaches_parse [OF assms(2), of target "[]"]
  obtain before where start: "parse_loop lines target 0 [] = parse_loop lines target i before"
    by auto
  have ll: "locLine lines i = Inr (trim (lines ! (i + 2)))"
    using assms(3) by (simp add: locLine_eq)
  have pl: "progLine lines i = Inr (trim (lines ! (i + 3)))"
    using assms(3) by (simp add: progLine_eq)
  have first: "parse_loop lines target i before = parse_loop lines target (i + 4) (before @ ?e1)"
    by (simp add: parse_loop_header [OF i assms(4) ll pl] stop stripAnnoyingLines_empty)
  from parse_loop_header_any [OF assms(3) assms(5), of target "before @ ?e1"]
  obtain ll2 pl2 where ll2: "locLine lines (i + 4) = Inr ll2"
    and pl2: "progLine lines (i + 4) = Inr pl2"
    and second: "parse_loop lines target (i + 4) (before @ ?e1) =
       parse_loop lines target (fst (body_loop lines (i + 4 + 4) []))
         ((before @ ?e1) @
          (if d2 = target
           then [\<lparr>date = d2, loc = trim (strip_hashes ll2),
                   program = trim (strip_hashes pl2),
                   body = stripAnnoyingLines
                            (join_lines (snd (body_loop lines (i + 4 + 4) [])))\<rparr>]
           else []))"
    by blast
  from parse_loop_total obtain after where
    "parse_loop lines target (fst (body_loop lines (i + 4 + 4) []))
         ((before @ ?e1) @
          (if d2 = target
           then [\<lparr>date = d2, loc = trim (strip_hashes ll2),
                   program = trim (strip_hashes pl2),
                   body = stripAnnoyingLines
                            (join_lines (snd (body_loop lines (i + 4 + 4) [])))\<rparr>]
           else []))
     = Inr (((before @ ?e1) @
          (if d2 = target
           then [\<lparr>date = d2, loc = trim (strip_hashes ll2),
                   program = trim (strip_hashes pl2),
                   body = stripAnnoyingLines
                            (join_lines (snd (body_loop lines (i + 4 + 4) [])))\<rparr>]
           else [])) @ after)"
    by blast
  with start first second
  have "parseWodPage markdown target =
          Inr (before @ ?e1 @
               (if d2 = target
                then [\<lparr>date = d2, loc = trim (strip_hashes ll2),
                        program = trim (strip_hashes pl2),
                        body = stripAnnoyingLines
                                 (join_lines (snd (body_loop lines (i + 4 + 4) [])))\<rparr>]
                else []) @ after)"
    by (simp add: parseWodPage_def assms(1))
  with reach ll2 pl2 show ?thesis by blast
qed

theorem header_block_without_body_witness:
  "split_lines (join_lines three_blocks_lines) = three_blocks_lines \<and>
   scan_reaches three_blocks_lines 0 6 \<and>
   6 + 4 < length three_blocks_lines \<and>
   date_header_at three_blocks_lines 6 = Some (js ''01/02/2026'') \<and>
   date_header_at three_blocks_lines (6 + 4) = Some (js ''02/02/2026'') \<and>
   scan_reaches three_blocks_lines 0 (6 + 4) \<and>
   parseWodPage (join_lines three_blocks_lines) (js ''01/02/2026'')
     = Inr [\<lparr>date = js ''01/02/2026'', loc = js ''Gym A'', program = js ''CrossFit'',
              body = js ''Warm up''\<rparr>,
            \<lparr>date = js ''01/02/2026'', loc = js ''Gym B'', program = js ''Open Gym'',
              body = []\<rparr>] \<and>
   parseWodPage (join_lines three_blocks_lines) (js ''02/02/2026'')
     = Inr [\<lparr>date = js ''02/02/2026'', loc = js ''Gym C'', program = js ''Yoga'',
              body = js ''Stretch''\<rparr>] \<and>
   date_header_at header_in_block_lines 1 = Some (js ''01/02/2026'') \<and>
   date_header_at header_in_block_lines (1 + 4) = Some (js ''01/02/2026'') \<and>
   \<not> scan_reaches header_in_block_lines 0 1"
proof -
  have sp: "split_lines (join_lines three_blocks_lines) = three_blocks_lines"
    by (simp add: three_blocks_lines_def js_def LF_def CR_def)
  have reach: "scan_reaches three_blocks_lines 0 6"
    by (simp add: three_blocks_lines_def scan_reaches_refl scan_reaches_skip
        scan_reaches_block [where d = "js ''01/02/2026''"] parser_eval)
  have len: "6 + 4 < length three_blocks_lines"
    by (simp add: three_blocks_lines_def)
  have h1: "date_header_at three_blocks_lines 6 = Some (js ''01/02/2026'')"
    by (simp add: three_blocks_lines_def parser_eval)
  have h2: "date_header_at three_blocks_lines (6 + 4) = Some (js ''02/02/2026'')"
    by (simp add: three_blocks_lines_def parser_eval)
  have p1: "parseWodPage (join_lines three_blocks_lines) (js ''01/02/2026'')
     = Inr [\<lparr>date = js ''01/02/2026'', loc = js ''Gym A'', program = js ''CrossFit'',
              body = js ''Warm up''\<rparr>,
            \<lparr>date = js ''01/02/2026'', loc = js ''Gym B'', program = js ''Open Gym'',
              body = []\<rparr>]"
    by (simp add: three_blocks_lines_def parser_eval)
  have p2: "parseWodPage (join_lines three_blocks_lines) (js ''02/02/2026'')
     = Inr [\<lparr>date = js ''02/02/2026'', loc = js ''Gym C'', program = js ''Yoga'',
              body = js ''Stretch''\<rparr>]"
    by (simp add: three_blocks_lines_def parser_eval)
  have a1: "date_header_at header_in_block_lines 1 = Some (js ''01/02/2026'')"
    and a2: "date_header_at header_in_block_lines (1 + 4) = Some (js ''01/02/2026'')"
    by (simp_all add: header_in_block_lines_def parser_eval)
  have a3: "\<not> scan_reaches header_in_block_lines 0 1"
    by (simp add: header_in_block_lines_def scan_reaches_end
        scan_reaches_block [where d = "js ''01/02/2026''"] parser_eval)
  from header_block_without_body [OF sp reach len h1 h2, of "js ''01/02/2026''"]
  have "scan_reaches three_blocks_lines 0 (6 + 4)" by blast
  with sp reach len h1 h2 p1 p2 a1 a2 a3 show ?thesis by blast
qed

text \<open>
  The claim as stated fails where two date headers are adjacent: the second one is read
  as part of the first one's header block, so one entry is produced for the two headers,
  and its body is not empty.
\<close>

theorem adjacent_date_headers_counterexample:
  "parseWodPage
     (join_lines [js ''#### 01/02/2026'', js ''#### 01/02/2026'', js ''#### Gym B'',
                  js ''#### Open Gym'', js ''Free lift''])
     (js ''01/02/2026'')
   = Inr [\<lparr>date = js ''01/02/2026'', loc = js ''Gym B'', program = js ''Open Gym'',
            body = js ''Free lift''\<rparr>]"
  by (simp add: parser_eval)

section \<open>Properties of the noise filter\<close>

lemma split_lines_nonempty: "split_lines s \<noteq> []"
  by (induction s rule: split_lines.induct) (auto split: list.splits)

lemma split_lines_hd_prefix: "prefix (hd (split_lines s)) s"
  by (induction s rule: split_lines.induct) (auto split: list.splits)

lemma split_lines_sublist:
  "l \<in> set (split_lines s) \<Longrightarrow> sublist l s \<and> LF \<notin> set l"
proof (induction s arbitrary: l rule: split_lines.induct)
  case 1
  then show ?case by simp
next
  case (2 c)
  then show ?case by (auto split: if_splits)
next
  case (3 c d cs)
  show ?case
  proof (cases "c = LF")
    case True
    with 3 show ?thesis by (auto simp: sublist_Cons_right)
  next
    case notLF: False
    show ?thesis
    proof (cases "c = CR \<and> d = LF")
      case True
      with 3 notLF have "l = [] \<or> (sublist l cs \<and> LF \<notin> set l)" by auto
      then show ?thesis by (auto simp: sublist_Cons_right)
    next
      case False
      obtain l0 ls where sp: "split_lines (d # cs) = l0 # ls"
        using split_lines_nonempty [of "d # cs"] by (cases "split_lines (d # cs)") auto
      from 3(4) notLF False sp have "l = c # l0 \<or> l \<in> set ls" by auto
      then show ?thesis
      proof
        assume l: "l = c # l0"
        have "prefix l0 (d # cs)" using split_lines_hd_prefix [of "d # cs"] sp by simp
        moreover have "LF \<notin> set l0" using 3(3) [OF notLF False, of l0] sp by simp
        ultimately show ?thesis using l notLF by auto
      next
        assume "l \<in> set ls"
        then have "sublist l (d # cs) \<and> LF \<notin> set l"
          using 3(3) [OF notLF False, of l] sp by simp
        then show ?thesis by (auto simp: sublist_Cons_right [of l c])
      qed
    qed
  qed
qed

lemma trim_sublist: "sublist (trim s) s"
proof -
  have "sublist (rev (dropWhile is_ws (rev (dropWhile is_ws s)))) (dropWhile is_ws s)"
    by (simp add: sublist_rev_left)
  then show ?thesis
    unfolding trim_def
    using sublist_dropWhile [of is_ws s] sublist_order.order.trans by blast
qed

lemma collapse_prefix:
  "prefix l (collapse_newlines s) \<Longrightarrow> LF \<notin> set l \<Longrightarrow> prefix l s"
proof (induction s arbitrary: l rule: collapse_newlines.induct)
  case 1
  then show ?case by simp
next
  case (2 c cs)
  show ?case
  proof (cases "3 \<le> length (takeWhile (\<lambda>x. x = LF) (c # cs))")
    case True
    with 2(3,4) have "l = []" by (cases l) auto
    then show ?thesis by simp
  next
    case False
    with 2(3) have p: "prefix l (c # collapse_newlines cs)" by simp
    show ?thesis
    proof (cases l)
      case Nil
      then show ?thesis by simp
    next
      case (Cons x l')
      with p have "x = c" and "prefix l' (collapse_newlines cs)" by auto
      with 2(2) [OF False, of l'] 2(4) Cons show ?thesis by simp
    qed
  qed
qed

lemma collapse_sublist:
  "sublist l (collapse_newlines s) \<Longrightarrow> LF \<notin> set l \<Longrightarrow> sublist l s"
proof (induction s arbitrary: l rule: collapse_newlines.induct)
  case 1
  then show ?case by simp
next
  case (2 c cs)
  show ?case
  proof (cases "3 \<le> length (takeWhile (\<lambda>x. x = LF) (c # cs))")
    case True
    let ?d = "dropWhile (\<lambda>x. x = LF) (c # cs)"
    from True 2(3) have "sublist l (LF # LF # collapse_newlines ?d)" by simp
    then have "l = [] \<or> sublist l (collapse_newlines ?d)"
      using 2(4) by (cases l) (auto simp: sublist_Cons_right)
    then have "sublist l ?d"
      using 2(1) [OF True] 2(4) by auto
    then show ?thesis
      using sublist_dropWhile [of "\<lambda>x. x = LF" "c # cs"] sublist_order.order.trans by blast
  next
    case False
    with 2(3) have "sublist l (c # collapse_newlines cs)" by simp
    then have "prefix l (c # collapse_newlines cs) \<or> sublist l (collapse_newlines cs)"
      by (simp add: sublist_Cons_right)
    then show ?thesis
    proof
      assume "prefix l (c # collapse_newlines cs)"
      then have "prefix l (collapse_newlines (c # cs))" using False by simp
      then have "prefix l (c # cs)" using 2(4) by (rule collapse_prefix)
      then show ?thesis by (rule prefix_imp_sublist)
    next
      assume "sublist l (collapse_newlines cs)"
      then have "sublist l cs" using 2(2) [OF False] 2(4) by simp
      then show ?thesis by (simp add: sublist_Cons_right)
    qed
  qed
qed

lemma sublist_append_LF:
  assumes "sublist l (xs @ LF # ys)" and "LF \<notin> set l"
  shows "sublist l xs \<or> sublist l ys"
proof -
  from assms(1) consider "sublist l xs" | "sublist l (LF # ys)"
    | l1 l2 where "l = l1 @ l2" "suffix l1 xs" "prefix l2 (LF # ys)"
    by (auto simp: sublist_append)
  then show ?thesis
  proof cases
    case 1
    then show ?thesis by simp
  next
    case 2
    then show ?thesis using assms(2) by (cases l) (auto simp: sublist_Cons_right)
  next
    case 3
    then have "l2 = []" using assms(2) by (cases l2) auto
    with 3 show ?thesis by auto
  qed
qed

lemma join_lines_sublist:
  "sublist l (join_lines ls) \<Longrightarrow> LF \<notin> set l \<Longrightarrow> l = [] \<or> (\<exists>k \<in> set ls. sublist l k)"
proof (induction ls rule: join_lines.induct)
  case 1
  then show ?case by simp
next
  case (2 k)
  then show ?case by simp
next
  case (3 k m ls)
  from 3(2) have "sublist l (k @ LF # join_lines (m # ls))" by simp
  then have "sublist l k \<or> sublist l (join_lines (m # ls))"
    using 3(3) by (rule sublist_append_LF)
  then show ?case using 3(1) 3(3) by auto
qed


lemma match_somewhere_iff: "match_somewhere m l \<longleftrightarrow> (\<exists>ss. suffix ss l \<and> m ss)"
proof (induction l)
  case Nil
  then show ?case by simp
next
  case (Cons c cs)
  show ?case
  proof
    assume "match_somewhere m (c # cs)"
    then have "m (c # cs) \<or> (\<exists>ss. suffix ss cs \<and> m ss)" using Cons by simp
    then show "\<exists>ss. suffix ss (c # cs) \<and> m ss"
      by (auto intro: suffix_ConsI)
  next
    assume "\<exists>ss. suffix ss (c # cs) \<and> m ss"
    then obtain ss where ss: "suffix ss (c # cs)" "m ss" by blast
    then have "ss = c # cs \<or> suffix ss cs" by (auto simp: suffix_Cons)
    then show "match_somewhere m (c # cs)" using ss(2) Cons by auto
  qed
qed

lemma match_somewhere_sublist:
  assumes ext: "\<And>s t. m s \<Longrightarrow> m (s @ t)"
    and sub: "sublist l' l" and hit: "match_somewhere m l'"
  shows "match_somewhere m l"
proof -
  from hit obtain ss where ss: "suffix ss l'" "m ss"
    by (auto simp: match_somewhere_iff)
  from sub obtain a b where l: "l = a @ l' @ b" by (auto simp: sublist_def)
  from ss(1) obtain p where "l' = p @ ss" by (auto simp: suffix_def)
  with l have "suffix (ss @ b) l" by (simp add: suffix_def)
  moreover have "m (ss @ b)" using ss(2) by (rule ext)
  ultimately show ?thesis by (auto simp: match_somewhere_iff)
qed

lemma ci_prefix_length: "ci_prefix p s \<Longrightarrow> length p \<le> length s"
proof -
  assume "ci_prefix p s"
  then have "length (map ascii_upper (take (length p) s)) = length (map ascii_upper p)"
    unfolding ci_prefix_def by simp
  then show ?thesis by simp
qed

lemma ci_prefix_append: "ci_prefix p s \<Longrightarrow> ci_prefix p (s @ t)"
  using ci_prefix_length [of p s] by (simp add: ci_prefix_def)

lemma ws_split_append:
  assumes "dropWhile is_ws r \<noteq> []"
  shows "takeWhile is_ws (r @ t) = takeWhile is_ws r"
    and "dropWhile is_ws (r @ t) = dropWhile is_ws r @ t"
proof -
  from assms obtain x where x: "x \<in> set r" "\<not> is_ws x"
    by (metis dropWhile_eq_Nil_conv)
  then show "takeWhile is_ws (r @ t) = takeWhile is_ws r"
    by (simp add: takeWhile_append1)
  from x show "dropWhile is_ws (r @ t) = dropWhile is_ws r @ t"
    by (simp add: dropWhile_append1)
qed

lemma more_than_at_unfold:
  "more_than_at s \<longleftrightarrow>
     ci_prefix (js ''MORE THAN'') s \<and>
     takeWhile is_ws (drop 9 s) \<noteq> [] \<and>
     take 1 (dropWhile is_ws (drop 9 s)) = js ''5'' \<and>
     takeWhile is_ws (drop 1 (dropWhile is_ws (drop 9 s))) \<noteq> [] \<and>
     ci_prefix (js ''MIN'') (dropWhile is_ws (drop 1 (dropWhile is_ws (drop 9 s))))"
  unfolding more_than_at_def Let_def by (rule refl)

lemma nonempty_length: "xs \<noteq> [] \<Longrightarrow> 1 \<le> length xs"
  by (cases xs) simp_all

lemma more_than_at_append:
  assumes "more_than_at s"
  shows "more_than_at (s @ t)"
proof -
  let ?r1 = "drop 9 s"
  let ?r2 = "dropWhile is_ws ?r1"
  let ?r3 = "drop 1 ?r2"
  let ?r4 = "dropWhile is_ws ?r3"
  from assms have a: "ci_prefix (js ''MORE THAN'') s" and b: "takeWhile is_ws ?r1 \<noteq> []"
    and c: "take 1 ?r2 = js ''5''" and d: "takeWhile is_ws ?r3 \<noteq> []"
    and e: "ci_prefix (js ''MIN'') ?r4"
    unfolding more_than_at_unfold by blast+
  have "length (js ''MORE THAN'') = 9" by (simp add: js_def)
  then have len: "9 \<le> length s" using ci_prefix_length [OF a] by simp
  have r1: "drop 9 (s @ t) = ?r1 @ t" using len by simp
  have r2ne: "?r2 \<noteq> []"
  proof
    assume h: "?r2 = []"
    have "take 1 ?r2 = []" unfolding h by simp
    with c have "js ''5'' = []" by (simp only:)
    then show False by (simp add: js_def)
  qed
  have "length (js ''MIN'') = 3" by (simp add: js_def)
  then have l4: "3 \<le> length ?r4" using ci_prefix_length [OF e] by (simp only:)
  have r4ne: "?r4 \<noteq> []"
  proof
    assume h: "?r4 = []"
    have "length ?r4 = 0" unfolding h by simp
    with l4 show False by linarith
  qed
  have "1 \<le> length ?r2" using r2ne by (rule nonempty_length)
  then have r3: "drop 1 (?r2 @ t) = ?r3 @ t" and t1: "take 1 (?r2 @ t) = take 1 ?r2"
    by simp_all
  have A: "ci_prefix (js ''MORE THAN'') (s @ t)" using a by (rule ci_prefix_append)
  have E: "ci_prefix (js ''MIN'') (?r4 @ t)" using e by (rule ci_prefix_append)
  show ?thesis
    unfolding more_than_at_unfold r1 ws_split_append [OF r2ne] r3 t1 ws_split_append [OF r4ne]
    using A b c d E by blast
qed

lemma no_reservation_sublist: "sublist l' l \<Longrightarrow> no_reservation l' \<Longrightarrow> no_reservation l"
  unfolding no_reservation_def
  by (rule match_somewhere_sublist [where m = "ci_prefix (js ''NO RESERVATION, NO CLASS.'')"])
     (auto intro: ci_prefix_append)

lemma more_than_5_min_sublist: "sublist l' l \<Longrightarrow> more_than_5_min l' \<Longrightarrow> more_than_5_min l"
  unfolding more_than_5_min_def
  by (rule match_somewhere_sublist [where m = more_than_at]) (auto intro: more_than_at_append)

lemma no_reservation_Nil: "\<not> no_reservation []"
  by (simp add: no_reservation_def ci_prefix_def js_def)

lemma more_than_5_min_Nil: "\<not> more_than_5_min []"
  by (simp add: more_than_5_min_def more_than_at_def ci_prefix_def js_def)

lemma stripAnnoyingLines_lines:
  assumes "l \<in> set (split_lines (stripAnnoyingLines text))"
  shows "\<not> no_reservation l \<and> \<not> more_than_5_min l"
proof (cases "l = []")
  case True
  then show ?thesis by (simp add: no_reservation_Nil more_than_5_min_Nil)
next
  case False
  let ?kept = "filter (\<lambda>line. \<not> more_than_5_min line)
                 (filter (\<lambda>line. \<not> no_reservation line) (split_lines text))"
  from assms have sub: "sublist l (stripAnnoyingLines text)" and lf: "LF \<notin> set l"
    using split_lines_sublist by blast+
  from sub have "sublist l (collapse_newlines (join_lines ?kept))"
    unfolding stripAnnoyingLines_def
    using trim_sublist sublist_order.order.trans by blast
  then have "sublist l (join_lines ?kept)" using lf by (rule collapse_sublist)
  then obtain k where k: "k \<in> set ?kept" "sublist l k"
    using join_lines_sublist [OF _ lf] False by blast
  from k(1) have "\<not> no_reservation k" and "\<not> more_than_5_min k" by simp_all
  then show ?thesis
    using k(2) no_reservation_sublist more_than_5_min_sublist by blast
qed

lemma lead_collapse:
  "length (takeWhile (\<lambda>x. x = LF) (collapse_newlines s))
     = min 2 (length (takeWhile (\<lambda>x. x = LF) s))"
proof (induction s rule: collapse_newlines.induct)
  case 1
  then show ?case by simp
next
  case (2 c cs)
  show ?case
  proof (cases "3 \<le> length (takeWhile (\<lambda>x. x = LF) (c # cs))")
    case True
    let ?d = "dropWhile (\<lambda>x. x = LF) (c # cs)"
    have "takeWhile (\<lambda>x. x = LF) ?d = []"
      by (metis (mono_tags, lifting) dropWhile_eq_Nil_conv hd_dropWhile takeWhile.simps(1)
          takeWhile_eq_Nil_iff)
    then have "length (takeWhile (\<lambda>x. x = LF) (collapse_newlines ?d)) = 0"
      using 2(1) [OF True] by simp
    then show ?thesis using True by simp
  next
    case False
    then show ?thesis using 2(2) [OF False] by (auto split: if_splits)
  qed
qed

lemma triple_prefix_lead:
  "prefix [LF, LF, LF] s \<Longrightarrow> 3 \<le> length (takeWhile (\<lambda>x. x = LF) s)"
  by (auto simp: prefix_def)

lemma collapse_no_triple: "\<not> sublist [LF, LF, LF] (collapse_newlines s)"
proof (induction s rule: collapse_newlines.induct)
  case 1
  then show ?case by simp
next
  case (2 c cs)
  show ?case
  proof (cases "3 \<le> length (takeWhile (\<lambda>x. x = LF) (c # cs))")
    case True
    let ?d = "dropWhile (\<lambda>x. x = LF) (c # cs)"
    let ?x = "collapse_newlines ?d"
    have "takeWhile (\<lambda>x. x = LF) ?d = []"
      by (metis (mono_tags, lifting) dropWhile_eq_Nil_conv hd_dropWhile takeWhile.simps(1)
          takeWhile_eq_Nil_iff)
    then have lead0: "length (takeWhile (\<lambda>x. x = LF) ?x) = 0"
      by (simp add: lead_collapse)
    have nohd: "\<not> prefix [LF] ?x"
    proof
      assume "prefix [LF] ?x"
      then obtain r where "?x = LF # r" by (auto simp: prefix_def)
      with lead0 show False by simp
    qed
    have "\<not> sublist [LF, LF, LF] (LF # LF # ?x)"
      using 2(1) [OF True] nohd by (auto simp: sublist_Cons_right prefix_def)
    then show ?thesis using True by simp
  next
    case False
    have "\<not> prefix [LF, LF, LF] (c # collapse_newlines cs)"
    proof
      assume p: "prefix [LF, LF, LF] (c # collapse_newlines cs)"
      then have "3 \<le> length (takeWhile (\<lambda>x. x = LF) (collapse_newlines (c # cs)))"
        using False triple_prefix_lead [of "c # collapse_newlines cs"] by simp
      then show False using False lead_collapse [of "c # cs"] by simp
    qed
    then show ?thesis using 2(2) [OF False] False by (simp add: sublist_Cons_right)
  qed
qed

lemma trim_no_triple: "\<not> sublist [LF, LF, LF] (trim (collapse_newlines s))"
  using collapse_no_triple [of s] trim_sublist [of "collapse_newlines s"]
    sublist_order.order.trans by blast

lemma trim_ends: "trim s \<noteq> [] \<Longrightarrow> \<not> is_ws (hd (trim s)) \<and> \<not> is_ws (last (trim s))"
proof -
  assume ne: "trim s \<noteq> []"
  let ?u = "dropWhile is_ws s"
  let ?v = "dropWhile is_ws (rev ?u)"
  have t: "trim s = rev ?v" by (simp add: trim_def)
  from ne t have vne: "?v \<noteq> []" by simp
  then have une: "?u \<noteq> []" by (metis dropWhile.simps(1) rev.simps(1))
  have "\<not> is_ws (hd ?v)" using vne by (rule hd_dropWhile)
  then have last_ok: "\<not> is_ws (last (trim s))" using vne t by (simp add: last_rev)
  have "suffix ?v (rev ?u)" by (rule suffix_dropWhile)
  then obtain p where "rev ?u = p @ ?v" by (auto simp: suffix_def)
  then have "last (rev ?u) = last ?v" using vne by (metis last_appendR)
  then have "hd ?u = last ?v" using une by (simp add: last_rev)
  moreover have "\<not> is_ws (hd ?u)" using une by (rule hd_dropWhile)
  ultimately have "\<not> is_ws (hd (trim s))" using vne t by (simp add: hd_rev)
  with last_ok show ?thesis by simp
qed

lemma collapse_append:
  "xs \<noteq> [] \<Longrightarrow> last xs \<noteq> LF \<Longrightarrow>
   collapse_newlines (xs @ zs) = collapse_newlines xs @ collapse_newlines zs"
proof (induction xs rule: collapse_newlines.induct)
  case 1
  then show ?case by simp
next
  case (2 c cs)
  have mem: "last (c # cs) \<in> set (c # cs)" by (rule last_in_set) simp
  have tw: "takeWhile (\<lambda>x. x = LF) ((c # cs) @ zs) = takeWhile (\<lambda>x. x = LF) (c # cs)"
    using mem 2(4) by (rule takeWhile_append1)
  have dw: "dropWhile (\<lambda>x. x = LF) ((c # cs) @ zs) = dropWhile (\<lambda>x. x = LF) (c # cs) @ zs"
    using mem 2(4) by (rule dropWhile_append1)
  show ?case
  proof (cases "3 \<le> length (takeWhile (\<lambda>x. x = LF) (c # cs))")
    case True
    let ?d = "dropWhile (\<lambda>x. x = LF) (c # cs)"
    have dne: "?d \<noteq> []" using mem 2(4) by (metis (mono_tags, lifting) dropWhile_eq_Nil_conv)
    have "suffix ?d (c # cs)" by (rule suffix_dropWhile)
    then obtain p where "c # cs = p @ ?d" by (auto simp: suffix_def)
    then have "last (c # cs) = last ?d" using dne by (metis last_appendR)
    then have "last ?d \<noteq> LF" using 2(4) by simp
    from 2(1) [OF True dne this]
    have ih: "collapse_newlines (?d @ zs) = collapse_newlines ?d @ collapse_newlines zs" .
    have "collapse_newlines ((c # cs) @ zs) = LF # LF # collapse_newlines (?d @ zs)"
      using True tw dw by (metis append_Cons collapse_newlines.simps(2))
    also have "\<dots> = (LF # LF # collapse_newlines ?d) @ collapse_newlines zs"
      using ih by simp
    also have "LF # LF # collapse_newlines ?d = collapse_newlines (c # cs)"
      using True by simp
    finally show ?thesis .
  next
    case False
    have step: "collapse_newlines ((c # cs) @ zs) = c # collapse_newlines (cs @ zs)"
      using False tw by (metis append_Cons collapse_newlines.simps(2))
    show ?thesis
    proof (cases "cs = []")
      case True
      then show ?thesis using step False by simp
    next
      case ne: False
      then have "last cs \<noteq> LF" using 2(4) by simp
      from 2(2) [OF False ne this] show ?thesis using step False by simp
    qed
  qed
qed

lemma collapse_run:
  assumes "3 \<le> k" and "ys = [] \<or> hd ys \<noteq> LF"
  shows "collapse_newlines (replicate k LF @ ys) = LF # LF # collapse_newlines ys"
proof -
  obtain j where k: "k = Suc j" using assms(1) by (cases k) auto
  have ys_tw: "takeWhile (\<lambda>x. x = LF) ys = []" and ys_dw: "dropWhile (\<lambda>x. x = LF) ys = ys"
    using assms(2) by (cases ys, simp, simp)+
  have "takeWhile (\<lambda>x. x = LF) (replicate k LF @ ys)
          = replicate k LF @ takeWhile (\<lambda>x. x = LF) ys"
    by (rule takeWhile_append2) simp
  then have tw: "takeWhile (\<lambda>x. x = LF) (replicate k LF @ ys) = replicate k LF"
    using ys_tw by simp
  have "dropWhile (\<lambda>x. x = LF) (replicate k LF @ ys) = dropWhile (\<lambda>x. x = LF) ys"
    by (rule dropWhile_append2) simp
  then have dw: "dropWhile (\<lambda>x. x = LF) (replicate k LF @ ys) = ys"
    using ys_dw by simp
  have "replicate k LF @ ys = LF # (replicate j LF @ ys)" using k by simp
  then have "collapse_newlines (replicate k LF @ ys) =
      (if 3 \<le> length (takeWhile (\<lambda>x. x = LF) (replicate k LF @ ys))
       then LF # LF # collapse_newlines (dropWhile (\<lambda>x. x = LF) (replicate k LF @ ys))
       else LF # collapse_newlines (replicate j LF @ ys))"
    by (metis collapse_newlines.simps(2))
  then show ?thesis using assms(1) by (simp only: tw dw length_replicate if_True)
qed

lemma collapse_run_between:
  assumes "3 \<le> k" and "xs = [] \<or> last xs \<noteq> LF" and "ys = [] \<or> hd ys \<noteq> LF"
  shows "collapse_newlines (xs @ replicate k LF @ ys)
         = collapse_newlines xs @ [LF, LF] @ collapse_newlines ys"
proof (cases "xs = []")
  case True
  then show ?thesis using collapse_run [OF assms(1,3)] by simp
next
  case False
  then have "last xs \<noteq> LF" using assms(2) by simp
  from collapse_append [OF False this, of "replicate k LF @ ys"]
  show ?thesis using collapse_run [OF assms(1,3)] by simp
qed

lemma literal_more_than:
  assumes "ci_prefix (js ''MORE THAN 5 MIN'') s"
  shows "more_than_at s"
proof -
  have "15 \<le> length s" using ci_prefix_length [OF assms] by (simp add: js_def)
  then obtain c0 c1 c2 c3 c4 c5 c6 c7 c8 c9 c10 c11 c12 c13 c14 rest
    where s: "s = c0 # c1 # c2 # c3 # c4 # c5 # c6 # c7 # c8 # c9 # c10 # c11 # c12 # c13 # c14 # rest"
    by (auto simp: numeral_eq_Suc Suc_le_length_iff)
  from assms have u: "ascii_upper c0 = 77" "ascii_upper c1 = 79" "ascii_upper c2 = 82"
    "ascii_upper c3 = 69" "ascii_upper c4 = 32" "ascii_upper c5 = 84" "ascii_upper c6 = 72"
    "ascii_upper c7 = 65" "ascii_upper c8 = 78" "ascii_upper c9 = 32" "ascii_upper c10 = 53"
    "ascii_upper c11 = 32" "ascii_upper c12 = 77" "ascii_upper c13 = 73" "ascii_upper c14 = 78"
    unfolding s ci_prefix_def by (simp_all add: js_def ascii_upper_def)
  have c9: "c9 = 32" using u(10) by (simp add: ascii_upper_def split: if_splits)
  have c10: "c10 = 53" using u(11) by (simp add: ascii_upper_def split: if_splits)
  have c11: "c11 = 32" using u(12) by (simp add: ascii_upper_def split: if_splits)
  have "c12 = 77 \<or> c12 = 109" using u(13) by (simp add: ascii_upper_def split: if_splits)
  then have c12: "\<not> is_ws c12" by (auto simp: is_ws_def)
  have ws: "is_ws 32" and nws: "\<not> is_ws 53" by (simp_all add: is_ws_def)
  have p1: "ci_prefix (js ''MORE THAN'') s"
    unfolding s ci_prefix_def using u by (simp add: js_def ascii_upper_def)
  have p2: "ci_prefix (js ''MIN'') (c12 # c13 # c14 # rest)"
    unfolding ci_prefix_def using u by (simp add: js_def ascii_upper_def)
  show ?thesis
    unfolding more_than_at_unfold
    using p1 p2 ws nws c12 unfolding s c9 c10 c11
    by (simp add: js_def)
qed

lemma literal_more_than_line:
  "match_somewhere (ci_prefix (js ''MORE THAN 5 MIN'')) l \<Longrightarrow> more_than_5_min l"
  unfolding more_than_5_min_def match_somewhere_iff using literal_more_than by blast

text \<open>
  C6 (as the code has it). The cleaned text is the trimmed, collapsed join of exactly the
  lines that match neither pattern (compared without case), so no line of the result
  matches one, and a line that contains the phrase \<open>MORE THAN 5 MIN\<close> literally matches
  the second pattern. The collapse replaces a run of three or more LF that stands between
  other characters by two LF. The result has no three LF in a row, and it neither starts
  nor ends with white space. Nothing is said of lines that hold white space only: the code
  keeps them, and runs of them, as they are.
\<close>

theorem stripAnnoyingLines_clean:
  "stripAnnoyingLines text =
     trim (collapse_newlines (join_lines
       (filter (\<lambda>line. \<not> no_reservation line \<and> \<not> more_than_5_min line) (split_lines text)))) \<and>
   (\<forall>l \<in> set (split_lines (stripAnnoyingLines text)).
      \<not> no_reservation l \<and> \<not> more_than_5_min l \<and>
      \<not> match_somewhere (ci_prefix (js ''MORE THAN 5 MIN'')) l) \<and>
   (3 \<le> k \<and> (xs = [] \<or> last xs \<noteq> LF) \<and> (ys = [] \<or> hd ys \<noteq> LF) \<longrightarrow>
      collapse_newlines (xs @ replicate k LF @ ys)
        = collapse_newlines xs @ [LF, LF] @ collapse_newlines ys) \<and>
   \<not> sublist [LF, LF, LF] (stripAnnoyingLines text) \<and>
   (stripAnnoyingLines text \<noteq> [] \<longrightarrow>
      \<not> is_ws (hd (stripAnnoyingLines text)) \<and> \<not> is_ws (last (stripAnnoyingLines text)))"
proof -
  have filt: "filter (\<lambda>line. \<not> more_than_5_min line)
                (filter (\<lambda>line. \<not> no_reservation line) (split_lines text))
              = filter (\<lambda>line. \<not> no_reservation line \<and> \<not> more_than_5_min line)
                  (split_lines text)"
    by (simp add: conj_commute)
  have a: "stripAnnoyingLines text =
     trim (collapse_newlines (join_lines
       (filter (\<lambda>line. \<not> no_reservation line \<and> \<not> more_than_5_min line) (split_lines text))))"
    unfolding stripAnnoyingLines_def filt by (rule refl)
  have b: "\<forall>l \<in> set (split_lines (stripAnnoyingLines text)).
      \<not> no_reservation l \<and> \<not> more_than_5_min l \<and>
      \<not> match_somewhere (ci_prefix (js ''MORE THAN 5 MIN'')) l"
    using stripAnnoyingLines_lines literal_more_than_line by blast
  have c: "3 \<le> k \<and> (xs = [] \<or> last xs \<noteq> LF) \<and> (ys = [] \<or> hd ys \<noteq> LF) \<longrightarrow>
      collapse_newlines (xs @ replicate k LF @ ys)
        = collapse_newlines xs @ [LF, LF] @ collapse_newlines ys"
    using collapse_run_between by blast
  have d: "\<not> sublist [LF, LF, LF] (stripAnnoyingLines text)"
    unfolding stripAnnoyingLines_def by (rule trim_no_triple)
  have e: "stripAnnoyingLines text \<noteq> [] \<longrightarrow>
      \<not> is_ws (hd (stripAnnoyingLines text)) \<and> \<not> is_ws (last (stripAnnoyingLines text))"
    unfolding stripAnnoyingLines_def using trim_ends by blast
  from a b c d e show ?thesis by blast
qed

theorem stripAnnoyingLines_clean_witness:
  "stripAnnoyingLines
     (join_lines [js ''Warm up'', [], [], [], [], js ''No Reservation, no class. Sorry'',
                  js ''Late by more than  5 min? Wait.'', js ''5 rounds  ''])
     = js ''Warm up'' @ [LF, LF] @ js ''5 rounds'' \<and>
   split_lines (js ''Warm up'' @ [LF, LF] @ js ''5 rounds'')
     = [js ''Warm up'', [], js ''5 rounds''] \<and>
   (3::nat) \<le> 4 \<and> last (js ''Warm up'') \<noteq> LF \<and> hd (js ''5 rounds'') \<noteq> LF \<and>
   collapse_newlines (js ''Warm up'' @ replicate 4 LF @ js ''5 rounds'')
     = js ''Warm up'' @ [LF, LF] @ js ''5 rounds'' \<and>
   \<not> sublist [LF, LF, LF] (js ''Warm up'' @ [LF, LF] @ js ''5 rounds'') \<and>
   js ''Warm up'' @ [LF, LF] @ js ''5 rounds'' \<noteq> [] \<and>
   \<not> is_ws (hd (js ''Warm up'' @ [LF, LF] @ js ''5 rounds'')) \<and>
   \<not> is_ws (last (js ''Warm up'' @ [LF, LF] @ js ''5 rounds''))"
proof -
  have ev: "stripAnnoyingLines
     (join_lines [js ''Warm up'', [], [], [], [], js ''No Reservation, no class. Sorry'',
                  js ''Late by more than  5 min? Wait.'', js ''5 rounds  ''])
     = js ''Warm up'' @ [LF, LF] @ js ''5 rounds''"
    by (simp add: parser_eval)
  have sp: "split_lines (js ''Warm up'' @ [LF, LF] @ js ''5 rounds'')
     = [js ''Warm up'', [], js ''5 rounds'']"
    by (simp add: js_def LF_def CR_def)
  have pre: "(3::nat) \<le> 4 \<and> last (js ''Warm up'') \<noteq> LF \<and> hd (js ''5 rounds'') \<noteq> LF"
    by (simp add: js_def LF_def)
  note th = stripAnnoyingLines_clean
    [of "join_lines [js ''Warm up'', [], [], [], [], js ''No Reservation, no class. Sorry'',
                     js ''Late by more than  5 min? Wait.'', js ''5 rounds  '']"
        4 "js ''Warm up''" "js ''5 rounds''", unfolded ev]
  have cx: "collapse_newlines (js ''Warm up'') = js ''Warm up''"
    and cy: "collapse_newlines (js ''5 rounds'') = js ''5 rounds''"
    by (simp_all add: js_def LF_def)
  from th pre have c: "collapse_newlines (js ''Warm up'' @ replicate 4 LF @ js ''5 rounds'')
     = js ''Warm up'' @ [LF, LF] @ js ''5 rounds''"
    unfolding cx cy by blast
  from th have d: "\<not> sublist [LF, LF, LF] (js ''Warm up'' @ [LF, LF] @ js ''5 rounds'')"
    by blast
  have ne: "js ''Warm up'' @ [LF, LF] @ js ''5 rounds'' \<noteq> []"
    by (simp add: js_def)
  with th have e: "\<not> is_ws (hd (js ''Warm up'' @ [LF, LF] @ js ''5 rounds'')) \<and>
   \<not> is_ws (last (js ''Warm up'' @ [LF, LF] @ js ''5 rounds''))"
    by blast
  from ev sp pre c d ne e show ?thesis by blast
qed

text \<open>
  The claim as stated fails on lines that are blank without being a bare LF. Three lines
  of one CR each come back as three CR LF in a row, which the script's own split reads as
  three empty lines, and three lines of one space each come back unchanged.
\<close>

theorem blank_lines_kept_counterexample:
  "stripAnnoyingLines (js ''a'' @ [LF, CR, CR, LF, CR, CR, LF, CR, CR, LF] @ js ''b'')
     = js ''a'' @ [LF, CR, LF, CR, LF, CR, LF] @ js ''b'' \<and>
   split_lines (js ''a'' @ [LF, CR, LF, CR, LF, CR, LF] @ js ''b'')
     = [js ''a'', [], [], [], js ''b''] \<and>
   stripAnnoyingLines (join_lines [js ''a'', js '' '', js '' '', js '' '', js ''b''])
     = join_lines [js ''a'', js '' '', js '' '', js '' '', js ''b'']"
  by (simp add: parser_eval)

section \<open>Properties of the sync run\<close>

lemma notionReq_requests: "requests (snd (notionReq R w req)) = requests w @ [req]"
  by (simp add: notionReq_def Let_def)

lemma notionReq_cases:
  "notionReq R w req =
     (if ok (fst (R (store w) req)) then Inr (fst (R (store w) req))
      else Inl (NotionApiError (status (fst (R (store w) req)))),
      \<lparr>store = snd (R (store w) req), requests = requests w @ [req]\<rparr>)"
  by (simp add: notionReq_def Let_def)

lemma sync_loop_ok:
  "sync_loop R w db d ex es c k = (Inr (c', k'), w') \<Longrightarrow>
     c' = c + length (filter (\<lambda>e. entry_key e \<notin> ex) es) \<and>
     k' = k + length (filter (\<lambda>e. entry_key e \<in> ex) es) \<and>
     requests w' = requests w @
       map (\<lambda>e. CreatePage db (row_of_entry d e)) (filter (\<lambda>e. entry_key e \<notin> ex) es)"
proof (induction es arbitrary: w c k)
  case Nil
  then show ?case by simp
next
  case (Cons e es)
  show ?case
  proof (cases "entry_key e \<in> ex")
    case True
    with Cons.prems have "sync_loop R w db d ex es c (k + 1) = (Inr (c', k'), w')" by simp
    from Cons.IH [OF this] True show ?thesis by simp
  next
    case False
    obtain r w1 where cr: "createWodRow R w db d e = (r, w1)" by (cases "createWodRow R w db d e")
    then have rq: "requests w1 = requests w @ [CreatePage db (row_of_entry d e)]"
      using notionReq_requests [of R w "CreatePage db (row_of_entry d e)"]
      by (simp add: createWodRow_def)
    show ?thesis
    proof (cases r)
      case (Inl err)
      with Cons.prems False cr show ?thesis by simp
    next
      case (Inr res)
      with Cons.prems False cr
      have "sync_loop R w1 db d ex es (c + 1) k = (Inr (c', k'), w')" by simp
      from Cons.IH [OF this] False rq show ?thesis by simp
    qed
  qed
qed

lemma main_ok:
  assumes "main R w ev d = (Inr s, w')"
  shows "\<exists>entries db w1 ex w2 c k.
           parseWodPage (str_of (WOD_MARKDOWN ev)) (ddmmyyyyFromISO d) = Inr entries \<and>
           entries \<noteq> [] \<and>
           getChildDatabaseId R w (str_of (NOTION_PAGE_ID ev)) = (Inr db, w1) \<and>
           queryExistingForDate R w1 db d = (Inr ex, w2) \<and>
           sync_loop R w2 db d ex entries 0 0 = (Inr (c, k), w') \<and>
           s = \<lparr>created = c, skipped = k, total = length entries\<rparr>"
proof -
  from assms have cfg: "\<not> falsy (NOTION_TOKEN ev)" "\<not> falsy (NOTION_PAGE_ID ev)"
    "\<not> falsy (WOD_MARKDOWN ev)"
    by (auto simp: main_def split: if_splits)
  obtain entries where p: "parseWodPage (str_of (WOD_MARKDOWN ev)) (ddmmyyyyFromISO d) = Inr entries"
    using parse_loop_total [of _ _ 0 "[]"] by (auto simp: parseWodPage_def)
  from assms cfg p have ne: "entries \<noteq> []"
    by (auto simp: main_def split: if_splits)
  obtain r1 w1 where g: "getChildDatabaseId R w (str_of (NOTION_PAGE_ID ev)) = (r1, w1)"
    by (cases "getChildDatabaseId R w (str_of (NOTION_PAGE_ID ev))")
  from assms cfg p ne g obtain db where r1: "r1 = Inr db"
    by (cases r1) (auto simp: main_def)
  obtain r2 w2 where q: "queryExistingForDate R w1 db d = (r2, w2)"
    by (cases "queryExistingForDate R w1 db d")
  from assms cfg p ne g r1 q obtain ex where r2: "r2 = Inr ex"
    by (cases r2) (auto simp: main_def)
  obtain r3 w3 where l: "sync_loop R w2 db d ex entries 0 0 = (r3, w3)"
    by (cases "sync_loop R w2 db d ex entries 0 0")
  from assms cfg p ne g r1 q r2 l obtain c k where r3: "r3 = Inr (c, k)"
    by (cases r3) (auto simp: main_def)
  from assms cfg p ne g r1 q r2 l r3
  have "w3 = w'" and "s = \<lparr>created = c, skipped = k, total = length entries\<rparr>"
    by (auto simp: main_def)
  with p ne g r1 q r2 l r3 show ?thesis by blast
qed

lemmas run_eval =
  main_def falsy_def str_of_def ddmmyyyyFromISO_def template_part_def
  getChildDatabaseId_def queryExistingForDate_def existing_key_def createWodRow_def
  row_of_entry_def entry_key_def notionReq_def notionRichText_def chunk_loop_step
  chunk_loop_done slice_def max_chunk_def page_of_def offset_of_def item_of_row_def
  db_block_def paragraph_block_def env_with_def world_with_def gym_row_def Let_def
  trim_def is_ws_def

lemma two_gyms_parse:
  "parseWodPage two_gyms_md (js ''01/02/2026'') =
     Inr [\<lparr>date = js ''01/02/2026'', loc = js ''Gym A'', program = js ''CrossFit'',
            body = js ''Warm up'' @ [LF] @ js ''5 rounds''\<rparr>,
          \<lparr>date = js ''01/02/2026'', loc = js ''Gym B'', program = js ''Open Gym'',
            body = js ''Free lift''\<rparr>]"
  by (simp add: two_gyms_md_def parser_eval)

lemma two_gyms_md_nonempty: "two_gyms_md \<noteq> []"
  by (simp add: two_gyms_md_def js_def)

lemma dd_example: "ddmmyyyyFromISO (js ''2026-02-01'') = js ''01/02/2026''"
  by (simp add: ddmmyyyyFromISO_def template_part_def nth_opt_def js_def)

lemma two_gyms_run:
  "main notion_api
     (world_with [db_block] [gym_row (js ''Gym A'') (js ''CrossFit'') (js ''Warm up'')])
     (env_with two_gyms_md) (js ''2026-02-01'')
   = (Inr \<lparr>created = 1, skipped = 1, total = 2\<rparr>,
      \<lparr>store = \<lparr>child_blocks = [db_block],
                 db_rows = [gym_row (js ''Gym A'') (js ''CrossFit'') (js ''Warm up''),
                            gym_row (js ''Gym B'') (js ''Open Gym'') (js ''Free lift'')]\<rparr>,
        requests = [GetChildren (js ''page-1'') 100 None,
                    QueryDatabase (js ''db-1'') 100 None (js ''2026-02-01''),
                    CreatePage (js ''db-1'')
                      (gym_row (js ''Gym B'') (js ''Open Gym'') (js ''Free lift''))]\<rparr>)"
  unfolding main_def
  by (simp add: dd_example str_of_def falsy_def env_with_def two_gyms_parse
      two_gyms_md_nonempty)
     (simp add: run_eval js_def)

lemma getChildDatabaseId_requests:
  "getChildDatabaseId R w pageId = (r, w1) \<Longrightarrow>
   requests w1 = requests w @ [GetChildren pageId 100 None]"
  by (auto simp: getChildDatabaseId_def notionReq_cases split: if_splits option.splits)

lemma queryExistingForDate_requests:
  "queryExistingForDate R w db d = (r, w1) \<Longrightarrow>
   requests w1 = requests w @ [QueryDatabase db 100 None d]"
  by (auto simp: queryExistingForDate_def notionReq_cases split: if_splits)

text \<open>
  C10. A run that ends with the summary line has parsed a list of entries, and its two
  counters add up to the length of that list: with the keys the query returned, every
  entry whose key is among them is counted as skipped and every other entry as created.
\<close>

theorem main_counts:
  assumes "main R w ev isoDate = (Inr s, w')"
  shows "\<exists>entries existingKeys.
           parseWodPage (str_of (WOD_MARKDOWN ev)) (ddmmyyyyFromISO isoDate) = Inr entries \<and>
           created s = length (filter (\<lambda>e. entry_key e \<notin> existingKeys) entries) \<and>
           skipped s = length (filter (\<lambda>e. entry_key e \<in> existingKeys) entries) \<and>
           created s + skipped s = length entries \<and>
           total s = length entries"
proof -
  from main_ok [OF assms] obtain entries db w1 ex w2 c k where
    p: "parseWodPage (str_of (WOD_MARKDOWN ev)) (ddmmyyyyFromISO isoDate) = Inr entries"
    and l: "sync_loop R w2 db isoDate ex entries 0 0 = (Inr (c, k), w')"
    and s: "s = \<lparr>created = c, skipped = k, total = length entries\<rparr>"
    by blast
  from sync_loop_ok [OF l]
  have c: "c = length (filter (\<lambda>e. entry_key e \<notin> ex) entries)"
    and k: "k = length (filter (\<lambda>e. entry_key e \<in> ex) entries)"
    by simp_all
  have "c + k = length entries"
    unfolding c k using sum_length_filter_compl [of "\<lambda>e. entry_key e \<in> ex" entries] by simp
  with p c k s show ?thesis by auto
qed

theorem main_counts_witness:
  "fst (main notion_api
         (world_with [db_block] [gym_row (js ''Gym A'') (js ''CrossFit'') (js ''Warm up'')])
         (env_with two_gyms_md) (js ''2026-02-01''))
     = Inr \<lparr>created = 1, skipped = 1, total = 2\<rparr> \<and>
   created \<lparr>created = 1, skipped = 1, total = 2\<rparr> + skipped \<lparr>created = 1, skipped = 1, total = 2\<rparr>
     = total \<lparr>created = 1, skipped = 1, total = 2\<rparr>"
  using main_counts [OF two_gyms_run] two_gyms_run by auto

text \<open>
  C7. When the text has no entry for the target date, the run ends with an error and the
  world is as before: no request was issued and the store is untouched. With the token,
  the page id and the text configured, the error is the one that names the date.
\<close>

theorem main_no_entries:
  assumes "parseWodPage (str_of (WOD_MARKDOWN ev)) (ddmmyyyyFromISO isoDate) = Inr []"
  shows "(\<exists>e. main R w ev isoDate = (Inl e, w)) \<and>
         (\<not> falsy (NOTION_TOKEN ev) \<and> \<not> falsy (NOTION_PAGE_ID ev) \<and> \<not> falsy (WOD_MARKDOWN ev) \<longrightarrow>
            main R w ev isoDate = (Inl (NoEntriesFound (ddmmyyyyFromISO isoDate)), w))"
  using assms by (simp add: main_def)

theorem main_no_entries_witness:
  "parseWodPage (str_of (WOD_MARKDOWN (env_with two_gyms_md))) (ddmmyyyyFromISO (js ''2026-02-02''))
     = Inr [] \<and>
   \<not> falsy (NOTION_TOKEN (env_with two_gyms_md)) \<and>
   \<not> falsy (NOTION_PAGE_ID (env_with two_gyms_md)) \<and>
   \<not> falsy (WOD_MARKDOWN (env_with two_gyms_md)) \<and>
   main notion_api (world_with [db_block] []) (env_with two_gyms_md) (js ''2026-02-02'')
     = (Inl (NoEntriesFound (js ''02/02/2026'')), world_with [db_block] [])"
proof -
  have dd: "ddmmyyyyFromISO (js ''2026-02-02'') = js ''02/02/2026''"
    by (simp add: ddmmyyyyFromISO_def template_part_def nth_opt_def js_def)
  have p: "parseWodPage (str_of (WOD_MARKDOWN (env_with two_gyms_md)))
             (ddmmyyyyFromISO (js ''2026-02-02'')) = Inr []"
    unfolding dd by (simp add: env_with_def str_of_def two_gyms_md_def parser_eval)
  have cfg: "\<not> falsy (NOTION_TOKEN (env_with two_gyms_md)) \<and>
             \<not> falsy (NOTION_PAGE_ID (env_with two_gyms_md)) \<and>
             \<not> falsy (WOD_MARKDOWN (env_with two_gyms_md))"
    using two_gyms_md_nonempty by (simp add: env_with_def falsy_def js_def)
  from main_no_entries [OF p, of notion_api "world_with [db_block] []"] cfg p
  show ?thesis unfolding dd by blast
qed

text \<open>
  C9. The query for the rows of a date is one request, of page size 100 and without a
  start cursor, whatever the remote answers; the keys it returns are those of the results
  of that one response. On the reference store these are the keys of the first 100 rows of
  the date, in creation order.
\<close>

theorem queryExistingForDate_single_page:
  "requests (snd (queryExistingForDate R w databaseId isoDate))
     = requests w @ [QueryDatabase databaseId 100 None isoDate] \<and>
   (ok (fst (R (store w) (QueryDatabase databaseId 100 None isoDate))) \<longrightarrow>
      fst (queryExistingForDate R w databaseId isoDate)
        = Inr (set (map existing_key
                 (case results (fst (R (store w) (QueryDatabase databaseId 100 None isoDate))) of
                    None \<Rightarrow> [] | Some ps \<Rightarrow> ps)))) \<and>
   fst (queryExistingForDate notion_api \<lparr>store = s, requests = rs\<rparr> databaseId isoDate)
     = Inr (set (map (existing_key \<circ> item_of_row)
              (take 100 (filter (\<lambda>r. Date r = isoDate) (db_rows s)))))"
  by (simp add: queryExistingForDate_def notionReq_cases page_of_def offset_of_def take_map)

theorem queryExistingForDate_single_page_witness:
  "ok (fst (notion_api
        (store (world_with [db_block]
                 (replicate 100 (gym_row (js ''Gym A'') (js ''CrossFit'') (js ''Warm up'')) @
                  [gym_row (js ''Gym B'') (js ''Open Gym'') (js ''Free lift'')])))
        (QueryDatabase (js ''db-1'') 100 None (js ''2026-02-01'')))) \<and>
   fst (queryExistingForDate notion_api
         (world_with [db_block]
            (replicate 100 (gym_row (js ''Gym A'') (js ''CrossFit'') (js ''Warm up'')) @
             [gym_row (js ''Gym B'') (js ''Open Gym'') (js ''Free lift'')]))
         (js ''db-1'') (js ''2026-02-01''))
     = Inr {js ''Gym A__CrossFit''} \<and>
   js ''Gym B__Open Gym'' \<notin> {js ''Gym A__CrossFit''} \<and>
   requests (snd (queryExistingForDate notion_api
         (world_with [db_block]
            (replicate 100 (gym_row (js ''Gym A'') (js ''CrossFit'') (js ''Warm up'')) @
             [gym_row (js ''Gym B'') (js ''Open Gym'') (js ''Free lift'')]))
         (js ''db-1'') (js ''2026-02-01'')))
     = [QueryDatabase (js ''db-1'') 100 None (js ''2026-02-01'')]"
proof -
  let ?a = "gym_row (js ''Gym A'') (js ''CrossFit'') (js ''Warm up'')"
  let ?b = "gym_row (js ''Gym B'') (js ''Open Gym'') (js ''Free lift'')"
  have da: "Date ?a = js ''2026-02-01''" and db: "Date ?b = js ''2026-02-01''"
    by (simp_all add: gym_row_def row_of_entry_def)
  have ka: "existing_key (item_of_row ?a) = js ''Gym A__CrossFit''"
    by (simp add: run_eval js_def)
  have okq: "ok (fst (notion_api (store (world_with [db_block] (replicate 100 ?a @ [?b])))
        (QueryDatabase (js ''db-1'') 100 None (js ''2026-02-01''))))"
    by (simp add: world_with_def page_of_def)
  let ?S = "\<lparr>child_blocks = [db_block], db_rows = replicate 100 ?a @ [?b]\<rparr>"
  have w: "world_with [db_block] (replicate 100 ?a @ [?b]) = \<lparr>store = ?S, requests = []\<rparr>"
    by (simp add: world_with_def)
  have keys: "set (map (existing_key \<circ> item_of_row)
              (take 100 (filter (\<lambda>r. Date r = js ''2026-02-01'') (db_rows ?S))))
          = {js ''Gym A__CrossFit''}"
    using da db ka by simp
  have ne: "js ''Gym B__Open Gym'' \<notin> {js ''Gym A__CrossFit''}"
    by (simp add: js_def)
  note th = queryExistingForDate_single_page
    [of notion_api "\<lparr>store = ?S, requests = []\<rparr>" "js ''db-1''" "js ''2026-02-01''" ?S "[]"]
  from th have rq: "requests (snd (queryExistingForDate notion_api \<lparr>store = ?S, requests = []\<rparr>
         (js ''db-1'') (js ''2026-02-01'')))
     = requests \<lparr>store = ?S, requests = []\<rparr> @ [QueryDatabase (js ''db-1'') 100 None (js ''2026-02-01'')]"
    by blast
  from th have "fst (queryExistingForDate notion_api \<lparr>store = ?S, requests = []\<rparr>
         (js ''db-1'') (js ''2026-02-01''))
     = Inr (set (map (existing_key \<circ> item_of_row)
              (take 100 (filter (\<lambda>r. Date r = js ''2026-02-01'') (db_rows ?S)))))"
    by blast
  then have ks: "fst (queryExistingForDate notion_api \<lparr>store = ?S, requests = []\<rparr>
         (js ''db-1'') (js ''2026-02-01'')) = Inr {js ''Gym A__CrossFit''}"
    unfolding keys .
  from rq have rq': "requests (snd (queryExistingForDate notion_api \<lparr>store = ?S, requests = []\<rparr>
         (js ''db-1'') (js ''2026-02-01'')))
     = [QueryDatabase (js ''db-1'') 100 None (js ''2026-02-01'')]"
    by simp
  from okq ks ne rq' show ?thesis unfolding w by blast
qed

lemma sync_loop_requests:
  "sync_loop R w db d ex es c k = (r, w') \<Longrightarrow>
   \<exists>m. m \<le> length (filter (\<lambda>e. entry_key e \<notin> ex) es) \<and>
       requests w' = requests w @
         map (\<lambda>e. CreatePage db (row_of_entry d e))
           (take m (filter (\<lambda>e. entry_key e \<notin> ex) es)) \<and>
       (case r of
          Inr ck \<Rightarrow> m = length (filter (\<lambda>e. entry_key e \<notin> ex) es) \<and> fst ck = c + m
        | Inl e \<Rightarrow> 0 < m \<and> (\<exists>st. e = NotionApiError st))"
proof (induction es arbitrary: w c k)
  case Nil
  then show ?case by auto
next
  case (Cons e es)
  show ?case
  proof (cases "entry_key e \<in> ex")
    case True
    with Cons.prems have "sync_loop R w db d ex es c (k + 1) = (r, w')" by simp
    from Cons.IH [OF this] True show ?thesis by (cases r) auto
  next
    case False
    obtain r1 w1 where cr: "createWodRow R w db d e = (r1, w1)"
      by (cases "createWodRow R w db d e")
    then have rq: "requests w1 = requests w @ [CreatePage db (row_of_entry d e)]"
      using notionReq_requests [of R w "CreatePage db (row_of_entry d e)"]
      by (simp add: createWodRow_def)
    show ?thesis
    proof (cases r1)
      case (Inl err)
      have "\<exists>st. err = NotionApiError st"
        using cr Inl by (auto simp: createWodRow_def notionReq_cases split: if_splits)
      moreover from Cons.prems False cr Inl have "r = Inl err" and "w' = w1" by simp_all
      ultimately show ?thesis
        using False rq by (intro exI [of _ 1]) simp
    next
      case (Inr res)
      with Cons.prems False cr
      have "sync_loop R w1 db d ex es (c + 1) k = (r, w')" by simp
      from Cons.IH [OF this] obtain m where
        m: "m \<le> length (filter (\<lambda>e. entry_key e \<notin> ex) es)"
        and q: "requests w' = requests w1 @
                 map (\<lambda>e. CreatePage db (row_of_entry d e))
                   (take m (filter (\<lambda>e. entry_key e \<notin> ex) es))"
        and c: "(case r of
                   Inr ck \<Rightarrow> m = length (filter (\<lambda>e. entry_key e \<notin> ex) es) \<and>
                             fst ck = c + 1 + m
                 | Inl e \<Rightarrow> 0 < m \<and> (\<exists>st. e = NotionApiError st))"
        by blast
      show ?thesis
        using False rq m q c by (intro exI [of _ "Suc m"]) (auto split: sum.splits)
    qed
  qed
qed

text \<open>
  C2 (as the code has it). Take a run that gets as far as the loop over the entries: the
  token, the page id and the text are configured, the text has entries for the date, and
  the discovery and the query for the date are answered. Its requests are the listing of
  the page's children, that one query, and then creates in entry order, one for each
  entry whose key is not among the keys that query returned: for every such entry when
  the run ends with the summary line, which then counts them as created, and for a
  non-empty initial part of them when a create fails and ends the run. The key set is not
  extended during the run, so entries that share a key not yet stored are each created.
\<close>

theorem main_creates:
  assumes "\<not> falsy (NOTION_TOKEN ev)" and "\<not> falsy (NOTION_PAGE_ID ev)"
    and "\<not> falsy (WOD_MARKDOWN ev)"
    and "parseWodPage (str_of (WOD_MARKDOWN ev)) (ddmmyyyyFromISO isoDate) = Inr entries"
    and "entries \<noteq> []"
    and "getChildDatabaseId R w (str_of (NOTION_PAGE_ID ev)) = (Inr databaseId, w1)"
    and "queryExistingForDate R w1 databaseId isoDate = (Inr existingKeys, w2)"
  shows "\<exists>m. m \<le> length (filter (\<lambda>e. entry_key e \<notin> existingKeys) entries) \<and>
           requests (snd (main R w ev isoDate)) =
             requests w @
             [GetChildren (str_of (NOTION_PAGE_ID ev)) 100 None,
              QueryDatabase databaseId 100 None isoDate] @
             map (\<lambda>e. CreatePage databaseId (row_of_entry isoDate e))
               (take m (filter (\<lambda>e. entry_key e \<notin> existingKeys) entries)) \<and>
           (case fst (main R w ev isoDate) of
              Inr s \<Rightarrow> m = length (filter (\<lambda>e. entry_key e \<notin> existingKeys) entries) \<and>
                       created s = m
            | Inl e \<Rightarrow> 0 < m \<and> (\<exists>st. e = NotionApiError st))"
proof -
  have run: "main R w ev isoDate =
      (case sync_loop R w2 databaseId isoDate existingKeys entries 0 0 of
         (Inl e, w3) \<Rightarrow> (Inl e, w3)
       | (Inr (c, k), w3) \<Rightarrow>
           (Inr \<lparr>created = c, skipped = k, total = length entries\<rparr>, w3))"
    using assms by (simp add: main_def)
  obtain r w3 where l: "sync_loop R w2 databaseId isoDate existingKeys entries 0 0 = (r, w3)"
    by (cases "sync_loop R w2 databaseId isoDate existingKeys entries 0 0")
  have before: "requests w2 =
      requests w @ [GetChildren (str_of (NOTION_PAGE_ID ev)) 100 None,
                    QueryDatabase databaseId 100 None isoDate]"
    using getChildDatabaseId_requests [OF assms(6)] queryExistingForDate_requests [OF assms(7)]
    by simp
  from sync_loop_requests [OF l] obtain m where
    m: "m \<le> length (filter (\<lambda>e. entry_key e \<notin> existingKeys) entries)"
    and q: "requests w3 = requests w2 @
             map (\<lambda>e. CreatePage databaseId (row_of_entry isoDate e))
               (take m (filter (\<lambda>e. entry_key e \<notin> existingKeys) entries))"
    and c: "(case r of
               Inr ck \<Rightarrow> m = length (filter (\<lambda>e. entry_key e \<notin> existingKeys) entries) \<and>
                         fst ck = 0 + m
             | Inl e \<Rightarrow> 0 < m \<and> (\<exists>st. e = NotionApiError st))"
    by blast
  have w: "snd (main R w ev isoDate) = w3"
    unfolding run l by (cases r) (auto split: prod.splits)
  have res: "(case fst (main R w ev isoDate) of
              Inr s \<Rightarrow> m = length (filter (\<lambda>e. entry_key e \<notin> existingKeys) entries) \<and>
                       created s = m
            | Inl e \<Rightarrow> 0 < m \<and> (\<exists>st. e = NotionApiError st))"
    unfolding run l using c by (cases r) (auto split: prod.splits)
  from m q before w res show ?thesis
    by (intro exI [of _ m]) simp
qed

theorem main_creates_witness:
  "\<not> falsy (NOTION_TOKEN (env_with two_gyms_md)) \<and>
   \<not> falsy (NOTION_PAGE_ID (env_with two_gyms_md)) \<and>
   \<not> falsy (WOD_MARKDOWN (env_with two_gyms_md)) \<and>
   parseWodPage (str_of (WOD_MARKDOWN (env_with two_gyms_md)))
       (ddmmyyyyFromISO (js ''2026-02-01''))
     = Inr [\<lparr>date = js ''01/02/2026'', loc = js ''Gym A'', program = js ''CrossFit'',
              body = js ''Warm up'' @ [LF] @ js ''5 rounds''\<rparr>,
            \<lparr>date = js ''01/02/2026'', loc = js ''Gym B'', program = js ''Open Gym'',
              body = js ''Free lift''\<rparr>] \<and>
   getChildDatabaseId notion_api
       (world_with [db_block] [gym_row (js ''Gym A'') (js ''CrossFit'') (js ''Warm up'')])
       (str_of (NOTION_PAGE_ID (env_with two_gyms_md)))
     = (Inr (js ''db-1''),
        \<lparr>store = \<lparr>child_blocks = [db_block],
                   db_rows = [gym_row (js ''Gym A'') (js ''CrossFit'') (js ''Warm up'')]\<rparr>,
          requests = [GetChildren (js ''page-1'') 100 None]\<rparr>) \<and>
   queryExistingForDate notion_api
       \<lparr>store = \<lparr>child_blocks = [db_block],
                  db_rows = [gym_row (js ''Gym A'') (js ''CrossFit'') (js ''Warm up'')]\<rparr>,
         requests = [GetChildren (js ''page-1'') 100 None]\<rparr>
       (js ''db-1'') (js ''2026-02-01'')
     = (Inr {js ''Gym A__CrossFit''},
        \<lparr>store = \<lparr>child_blocks = [db_block],
                   db_rows = [gym_row (js ''Gym A'') (js ''CrossFit'') (js ''Warm up'')]\<rparr>,
          requests = [GetChildren (js ''page-1'') 100 None,
                      QueryDatabase (js ''db-1'') 100 None (js ''2026-02-01'')]\<rparr>) \<and>
   fst (main notion_api
         (world_with [db_block] [gym_row (js ''Gym A'') (js ''CrossFit'') (js ''Warm up'')])
         (env_with two_gyms_md) (js ''2026-02-01''))
     = Inr \<lparr>created = 1, skipped = 1, total = 2\<rparr> \<and>
   requests (snd (main notion_api
         (world_with [db_block] [gym_row (js ''Gym A'') (js ''CrossFit'') (js ''Warm up'')])
         (env_with two_gyms_md) (js ''2026-02-01'')))
     = [GetChildren (js ''page-1'') 100 None,
        QueryDatabase (js ''db-1'') 100 None (js ''2026-02-01''),
        CreatePage (js ''db-1'') (gym_row (js ''Gym B'') (js ''Open Gym'') (js ''Free lift''))] \<and>
   parseWodPage (str_of (WOD_MARKDOWN (env_with same_gym_twice_md)))
       (ddmmyyyyFromISO (js ''2026-02-01''))
     = Inr [\<lparr>date = js ''01/02/2026'', loc = js ''Gym A'', program = js ''CrossFit'',
              body = js ''Warm up''\<rparr>,
            \<lparr>date = js ''01/02/2026'', loc = js ''Gym A'', program = js ''CrossFit'',
              body = js ''Warm up''\<rparr>] \<and>
   getChildDatabaseId refusing_api (world_with [db_block] [])
       (str_of (NOTION_PAGE_ID (env_with same_gym_twice_md)))
     = (Inr (js ''db-1''),
        \<lparr>store = \<lparr>child_blocks = [db_block], db_rows = []\<rparr>,
          requests = [GetChildren (js ''page-1'') 100 None]\<rparr>) \<and>
   queryExistingForDate refusing_api
       \<lparr>store = \<lparr>child_blocks = [db_block], db_rows = []\<rparr>,
         requests = [GetChildren (js ''page-1'') 100 None]\<rparr>
       (js ''db-1'') (js ''2026-02-01'')
     = (Inr {},
        \<lparr>store = \<lparr>child_blocks = [db_block], db_rows = []\<rparr>,
          requests = [GetChildren (js ''page-1'') 100 None,
                      QueryDatabase (js ''db-1'') 100 None (js ''2026-02-01'')]\<rparr>) \<and>
   fst (main refusing_api (world_with [db_block] []) (env_with same_gym_twice_md)
         (js ''2026-02-01''))
     = Inl (NotionApiError 500) \<and>
   requests (snd (main refusing_api (world_with [db_block] []) (env_with same_gym_twice_md)
         (js ''2026-02-01'')))
     = [GetChildren (js ''page-1'') 100 None,
        QueryDatabase (js ''db-1'') 100 None (js ''2026-02-01''),
        CreatePage (js ''db-1'') (gym_row (js ''Gym A'') (js ''CrossFit'') (js ''Warm up''))]"
proof -
  let ?W = "world_with [db_block] [gym_row (js ''Gym A'') (js ''CrossFit'') (js ''Warm up'')]"
  have twice_ne: "same_gym_twice_md \<noteq> []"
    by (simp add: same_gym_twice_md_def js_def)
  have cfg: "\<not> falsy (NOTION_TOKEN (env_with two_gyms_md))"
    "\<not> falsy (NOTION_PAGE_ID (env_with two_gyms_md))"
    "\<not> falsy (WOD_MARKDOWN (env_with two_gyms_md))"
    using two_gyms_md_nonempty by (simp_all add: env_with_def falsy_def js_def)
  have cfg2: "\<not> falsy (NOTION_TOKEN (env_with same_gym_twice_md))"
    "\<not> falsy (NOTION_PAGE_ID (env_with same_gym_twice_md))"
    "\<not> falsy (WOD_MARKDOWN (env_with same_gym_twice_md))"
    using twice_ne by (simp_all add: env_with_def falsy_def js_def)
  have p: "parseWodPage (str_of (WOD_MARKDOWN (env_with two_gyms_md)))
       (ddmmyyyyFromISO (js ''2026-02-01''))
     = Inr [\<lparr>date = js ''01/02/2026'', loc = js ''Gym A'', program = js ''CrossFit'',
              body = js ''Warm up'' @ [LF] @ js ''5 rounds''\<rparr>,
            \<lparr>date = js ''01/02/2026'', loc = js ''Gym B'', program = js ''Open Gym'',
              body = js ''Free lift''\<rparr>]"
    by (simp add: env_with_def str_of_def dd_example two_gyms_parse)
  have p2: "parseWodPage (str_of (WOD_MARKDOWN (env_with same_gym_twice_md)))
       (ddmmyyyyFromISO (js ''2026-02-01''))
     = Inr [\<lparr>date = js ''01/02/2026'', loc = js ''Gym A'', program = js ''CrossFit'',
              body = js ''Warm up''\<rparr>,
            \<lparr>date = js ''01/02/2026'', loc = js ''Gym A'', program = js ''CrossFit'',
              body = js ''Warm up''\<rparr>]"
    unfolding dd_example by (simp add: env_with_def str_of_def same_gym_twice_md_def parser_eval)
  have pp: "parseWodPage same_gym_twice_md (js ''01/02/2026'')
     = Inr [\<lparr>date = js ''01/02/2026'', loc = js ''Gym A'', program = js ''CrossFit'',
              body = js ''Warm up''\<rparr>,
            \<lparr>date = js ''01/02/2026'', loc = js ''Gym A'', program = js ''CrossFit'',
              body = js ''Warm up''\<rparr>]"
    by (simp add: same_gym_twice_md_def parser_eval)
  have g: "getChildDatabaseId notion_api ?W (str_of (NOTION_PAGE_ID (env_with two_gyms_md)))
     = (Inr (js ''db-1''),
        \<lparr>store = \<lparr>child_blocks = [db_block],
                   db_rows = [gym_row (js ''Gym A'') (js ''CrossFit'') (js ''Warm up'')]\<rparr>,
          requests = [GetChildren (js ''page-1'') 100 None]\<rparr>)"
    by (simp add: getChildDatabaseId_def notionReq_cases world_with_def env_with_def str_of_def
        page_of_def offset_of_def db_block_def)
  have g2: "getChildDatabaseId refusing_api (world_with [db_block] [])
       (str_of (NOTION_PAGE_ID (env_with same_gym_twice_md)))
     = (Inr (js ''db-1''),
        \<lparr>store = \<lparr>child_blocks = [db_block], db_rows = []\<rparr>,
          requests = [GetChildren (js ''page-1'') 100 None]\<rparr>)"
    by (simp add: getChildDatabaseId_def notionReq_cases world_with_def env_with_def str_of_def
        page_of_def offset_of_def db_block_def)
  have q: "queryExistingForDate notion_api
       \<lparr>store = \<lparr>child_blocks = [db_block],
                  db_rows = [gym_row (js ''Gym A'') (js ''CrossFit'') (js ''Warm up'')]\<rparr>,
         requests = [GetChildren (js ''page-1'') 100 None]\<rparr>
       (js ''db-1'') (js ''2026-02-01'')
     = (Inr {js ''Gym A__CrossFit''},
        \<lparr>store = \<lparr>child_blocks = [db_block],
                   db_rows = [gym_row (js ''Gym A'') (js ''CrossFit'') (js ''Warm up'')]\<rparr>,
          requests = [GetChildren (js ''page-1'') 100 None,
                      QueryDatabase (js ''db-1'') 100 None (js ''2026-02-01'')]\<rparr>)"
    by (simp add: run_eval js_def)
  have q2: "queryExistingForDate refusing_api
       \<lparr>store = \<lparr>child_blocks = [db_block], db_rows = []\<rparr>,
         requests = [GetChildren (js ''page-1'') 100 None]\<rparr>
       (js ''db-1'') (js ''2026-02-01'')
     = (Inr {},
        \<lparr>store = \<lparr>child_blocks = [db_block], db_rows = []\<rparr>,
          requests = [GetChildren (js ''page-1'') 100 None,
                      QueryDatabase (js ''db-1'') 100 None (js ''2026-02-01'')]\<rparr>)"
    by (simp add: run_eval)
  have aborted: "main refusing_api (world_with [db_block] []) (env_with same_gym_twice_md)
         (js ''2026-02-01'')
     = (Inl (NotionApiError 500),
        \<lparr>store = \<lparr>child_blocks = [db_block], db_rows = []\<rparr>,
          requests = [GetChildren (js ''page-1'') 100 None,
                      QueryDatabase (js ''db-1'') 100 None (js ''2026-02-01''),
                      CreatePage (js ''db-1'')
                        (gym_row (js ''Gym A'') (js ''CrossFit'') (js ''Warm up''))]\<rparr>)"
    by (simp add: main_def dd_example str_of_def falsy_def env_with_def pp twice_ne)
       (simp add: run_eval js_def)
  have fullrun: "fst (main notion_api ?W (env_with two_gyms_md) (js ''2026-02-01''))
     = Inr \<lparr>created = 1, skipped = 1, total = 2\<rparr>"
    and fullreq: "requests (snd (main notion_api ?W (env_with two_gyms_md) (js ''2026-02-01'')))
     = [GetChildren (js ''page-1'') 100 None,
        QueryDatabase (js ''db-1'') 100 None (js ''2026-02-01''),
        CreatePage (js ''db-1'') (gym_row (js ''Gym B'') (js ''Open Gym'') (js ''Free lift''))]"
    by (simp_all add: two_gyms_run)
  have abres: "fst (main refusing_api (world_with [db_block] []) (env_with same_gym_twice_md)
         (js ''2026-02-01'')) = Inl (NotionApiError 500)"
    and abreq: "requests (snd (main refusing_api (world_with [db_block] [])
         (env_with same_gym_twice_md) (js ''2026-02-01'')))
     = [GetChildren (js ''page-1'') 100 None,
        QueryDatabase (js ''db-1'') 100 None (js ''2026-02-01''),
        CreatePage (js ''db-1'') (gym_row (js ''Gym A'') (js ''CrossFit'') (js ''Warm up''))]"
    by (simp_all add: aborted)
  have ne1: "[\<lparr>date = js ''01/02/2026'', loc = js ''Gym A'', program = js ''CrossFit'',
              body = js ''Warm up'' @ [LF] @ js ''5 rounds''\<rparr>,
            \<lparr>date = js ''01/02/2026'', loc = js ''Gym B'', program = js ''Open Gym'',
              body = js ''Free lift''\<rparr>] \<noteq> []"
    and ne2: "[\<lparr>date = js ''01/02/2026'', loc = js ''Gym A'', program = js ''CrossFit'',
              body = js ''Warm up''\<rparr>,
            \<lparr>date = js ''01/02/2026'', loc = js ''Gym A'', program = js ''CrossFit'',
              body = js ''Warm up''\<rparr>] \<noteq> []"
    by simp_all
  note full = main_creates [OF cfg p ne1 g q]
  note part = main_creates [OF cfg2 p2 ne2 g2 q2]
  from full part have used: True by blast
  from used cfg p g q p2 g2 q2 fullrun fullreq abres abreq show ?thesis
    by blast
qed

text \<open>
  The claim as stated fails on a text that lists the same location and program twice for
  the date: on an empty database both entries are created, as two equal rows.
\<close>

theorem same_key_twice_counterexample:
  "main notion_api (world_with [db_block] []) (env_with same_gym_twice_md) (js ''2026-02-01'')
   = (Inr \<lparr>created = 2, skipped = 0, total = 2\<rparr>,
      \<lparr>store = \<lparr>child_blocks = [db_block],
                 db_rows = [gym_row (js ''Gym A'') (js ''CrossFit'') (js ''Warm up''),
                            gym_row (js ''Gym A'') (js ''CrossFit'') (js ''Warm up'')]\<rparr>,
        requests = [GetChildren (js ''page-1'') 100 None,
                    QueryDatabase (js ''db-1'') 100 None (js ''2026-02-01''),
                    CreatePage (js ''db-1'')
                      (gym_row (js ''Gym A'') (js ''CrossFit'') (js ''Warm up'')),
                    CreatePage (js ''db-1'')
                      (gym_row (js ''Gym A'') (js ''CrossFit'') (js ''Warm up''))]\<rparr>)"
proof -
  have p: "parseWodPage same_gym_twice_md (js ''01/02/2026'') =
     Inr [\<lparr>date = js ''01/02/2026'', loc = js ''Gym A'', program = js ''CrossFit'',
            body = js ''Warm up''\<rparr>,
          \<lparr>date = js ''01/02/2026'', loc = js ''Gym A'', program = js ''CrossFit'',
            body = js ''Warm up''\<rparr>]"
    by (simp add: same_gym_twice_md_def parser_eval)
  have ne: "same_gym_twice_md \<noteq> []"
    by (simp add: same_gym_twice_md_def js_def)
  show ?thesis
    by (simp add: main_def dd_example str_of_def falsy_def env_with_def p ne)
       (simp add: run_eval js_def)
qed

text \<open>
  C1, at an entry without a program. The row is stored under the type \<open>WOD\<close>, so its key
  read back from the store ends in \<open>WOD\<close>, while the key of the entry ends in the empty
  program: the second run does not find the entry and creates the row once more.
\<close>

theorem sync_twice_without_program:
  "main notion_api (world_with [db_block] []) (env_with no_program_md) (js ''2026-02-01'')
   = (Inr \<lparr>created = 1, skipped = 0, total = 1\<rparr>,
      \<lparr>store = \<lparr>child_blocks = [db_block],
                 db_rows = [gym_row (js ''Gym A'') [] (js ''Warm up'')]\<rparr>,
        requests = [GetChildren (js ''page-1'') 100 None,
                    QueryDatabase (js ''db-1'') 100 None (js ''2026-02-01''),
                    CreatePage (js ''db-1'') (gym_row (js ''Gym A'') [] (js ''Warm up''))]\<rparr>) \<and>
   main notion_api \<lparr>store = \<lparr>child_blocks = [db_block],
                db_rows = [gym_row (js ''Gym A'') [] (js ''Warm up'')]\<rparr>,
       requests = [GetChildren (js ''page-1'') 100 None,
                   QueryDatabase (js ''db-1'') 100 None (js ''2026-02-01''),
                   CreatePage (js ''db-1'') (gym_row (js ''Gym A'') [] (js ''Warm up''))]\<rparr>
     (env_with no_program_md) (js ''2026-02-01'')
   = (Inr \<lparr>created = 1, skipped = 0, total = 1\<rparr>,
      \<lparr>store = \<lparr>child_blocks = [db_block],
                 db_rows = [gym_row (js ''Gym A'') [] (js ''Warm up''),
                            gym_row (js ''Gym A'') [] (js ''Warm up'')]\<rparr>,
        requests = [GetChildren (js ''page-1'') 100 None,
                    QueryDatabase (js ''db-1'') 100 None (js ''2026-02-01''),
                    CreatePage (js ''db-1'') (gym_row (js ''Gym A'') [] (js ''Warm up'')),
                    GetChildren (js ''page-1'') 100 None,
                    QueryDatabase (js ''db-1'') 100 None (js ''2026-02-01''),
                    CreatePage (js ''db-1'') (gym_row (js ''Gym A'') [] (js ''Warm up''))]\<rparr>) \<and>
   Type (gym_row (js ''Gym A'') [] (js ''Warm up'')) = js ''WOD'' \<and>
   existing_key (item_of_row (gym_row (js ''Gym A'') [] (js ''Warm up''))) = js ''Gym A__WOD'' \<and>
   entry_key \<lparr>date = js ''01/02/2026'', loc = js ''Gym A'', program = [], body = js ''Warm up''\<rparr>
     = js ''Gym A__''"
proof -
  have p: "parseWodPage no_program_md (js ''01/02/2026'') =
     Inr [\<lparr>date = js ''01/02/2026'', loc = js ''Gym A'', program = [],
            body = js ''Warm up''\<rparr>]"
    by (simp add: no_program_md_def parser_eval)
  have ne: "no_program_md \<noteq> []"
    by (simp add: no_program_md_def js_def)
  have first: "main notion_api (world_with [db_block] []) (env_with no_program_md) (js ''2026-02-01'')
   = (Inr \<lparr>created = 1, skipped = 0, total = 1\<rparr>,
      \<lparr>store = \<lparr>child_blocks = [db_block],
                 db_rows = [gym_row (js ''Gym A'') [] (js ''Warm up'')]\<rparr>,
        requests = [GetChildren (js ''page-1'') 100 None,
                    QueryDatabase (js ''db-1'') 100 None (js ''2026-02-01''),
                    CreatePage (js ''db-1'') (gym_row (js ''Gym A'') [] (js ''Warm up''))]\<rparr>)"
    by (simp add: main_def dd_example str_of_def falsy_def env_with_def p ne)
       (simp add: run_eval js_def)
  have second: "main notion_api \<lparr>store = \<lparr>child_blocks = [db_block],
                db_rows = [gym_row (js ''Gym A'') [] (js ''Warm up'')]\<rparr>,
       requests = [GetChildren (js ''page-1'') 100 None,
                   QueryDatabase (js ''db-1'') 100 None (js ''2026-02-01''),
                   CreatePage (js ''db-1'') (gym_row (js ''Gym A'') [] (js ''Warm up''))]\<rparr>
     (env_with no_program_md) (js ''2026-02-01'')
   = (Inr \<lparr>created = 1, skipped = 0, total = 1\<rparr>,
      \<lparr>store = \<lparr>child_blocks = [db_block],
                 db_rows = [gym_row (js ''Gym A'') [] (js ''Warm up''),
                            gym_row (js ''Gym A'') [] (js ''Warm up'')]\<rparr>,
        requests = [GetChildren (js ''page-1'') 100 None,
                    QueryDatabase (js ''db-1'') 100 None (js ''2026-02-01''),
                    CreatePage (js ''db-1'') (gym_row (js ''Gym A'') [] (js ''Warm up'')),
                    GetChildren (js ''page-1'') 100 None,
                    QueryDatabase (js ''db-1'') 100 None (js ''2026-02-01''),
                    CreatePage (js ''db-1'') (gym_row (js ''Gym A'') [] (js ''Warm up''))]\<rparr>)"
    by (simp add: main_def dd_example str_of_def falsy_def env_with_def p ne)
       (simp add: run_eval js_def)
  have keys: "Type (gym_row (js ''Gym A'') [] (js ''Warm up'')) = js ''WOD'' \<and>
   existing_key (item_of_row (gym_row (js ''Gym A'') [] (js ''Warm up''))) = js ''Gym A__WOD'' \<and>
   entry_key \<lparr>date = js ''01/02/2026'', loc = js ''Gym A'', program = [], body = js ''Warm up''\<rparr>
     = js ''Gym A__''"
    by (simp add: run_eval js_def)
  from first second keys show ?thesis by blast
qed


lemma n_foldl_visit: "n (foldl visit st bs) = n st + length bs"
  by (induction bs arbitrary: st) (simp_all add: visit_def)

lemma find_replicate: "\<not> P x \<Longrightarrow> find P (replicate k x) = None"
  by (induction k) simp_all

text \<open>
  C3, on a page with 100 paragraphs before its database. The discovery of the sync script
  asks for one page of children and looks for the database among them only: it fails with
  the discovery error after a single request, although the database is the 101st child.
  The diagnostic lister follows the cursor and visits all 101 children in two requests.
\<close>

theorem discovery_reads_first_page_only:
  "getChildDatabaseId notion_api
     (world_with (replicate 100 paragraph_block @ [db_block]) []) (js ''page-1'')
   = (Inl NoChildDatabase,
      \<lparr>store = \<lparr>child_blocks = replicate 100 paragraph_block @ [db_block], db_rows = []\<rparr>,
        requests = [GetChildren (js ''page-1'') 100 None]\<rparr>) \<and>
   (\<exists>st. inspect_loop 2 notion_api
            (world_with (replicate 100 paragraph_block @ [db_block]) []) (js ''page-1'') None
            \<lparr>n = 0, types = [], sample = []\<rparr>
          = Some (Inr st,
              \<lparr>store = \<lparr>child_blocks = replicate 100 paragraph_block @ [db_block],
                         db_rows = []\<rparr>,
                requests = [GetChildren (js ''page-1'') 100 None,
                            GetChildren (js ''page-1'') 100 (Some [100])]\<rparr>) \<and>
          n st = 101)"
proof -
  have notdb: "item_type paragraph_block \<noteq> Some (js ''child_database'')"
    by (simp add: paragraph_block_def js_def)
  have disc: "getChildDatabaseId notion_api
     (world_with (replicate 100 paragraph_block @ [db_block]) []) (js ''page-1'')
   = (Inl NoChildDatabase,
      \<lparr>store = \<lparr>child_blocks = replicate 100 paragraph_block @ [db_block], db_rows = []\<rparr>,
        requests = [GetChildren (js ''page-1'') 100 None]\<rparr>)"
    using notdb
    by (simp add: getChildDatabaseId_def notionReq_cases world_with_def page_of_def
        offset_of_def find_replicate)
  have two: "(2::nat) = Suc (Suc 0)" by simp
  have "inspect_loop 2 notion_api
            (world_with (replicate 100 paragraph_block @ [db_block]) []) (js ''page-1'') None
            \<lparr>n = 0, types = [], sample = []\<rparr>
          = Some (Inr (foldl visit (foldl visit \<lparr>n = 0, types = [], sample = []\<rparr>
                                      (replicate 100 paragraph_block)) [db_block]),
              \<lparr>store = \<lparr>child_blocks = replicate 100 paragraph_block @ [db_block],
                         db_rows = []\<rparr>,
                requests = [GetChildren (js ''page-1'') 100 None,
                            GetChildren (js ''page-1'') 100 (Some [100])]\<rparr>)"
    unfolding two
    by (simp add: listChildren_def notionReq_cases world_with_def page_of_def offset_of_def
        falsy_def del: foldl_append)
  moreover have "n (foldl visit (foldl visit \<lparr>n = 0, types = [], sample = []\<rparr>
                                      (replicate 100 paragraph_block)) [db_block]) = 101"
    by (simp add: n_foldl_visit del: foldl_append foldl.simps)
  ultimately show ?thesis using disc by blast
qed

end
